theory Spec2Isabelle
  imports Main "HOL-Library.Word"
begin

unbundle bit_operations_syntax

section \<open>Rows: packed bit vectors over GF(2)\<close>

text \<open>
  The panics of the package, one constructor per message, and the runtime's
  index-out-of-range panic.
\<close>

datatype error =
    AddSizePanic
  | MulSizePanic
  | MatMulSizePanic
  | NonSquarePanic
  | WrongWidthPanic
  | IndexOutOfRange

type_synonym byte = "8 word"
type_synonym Row = "byte list"
type_synonym Matrix = "Row list"

definition weight :: "64 word list" where
  "weight = [0x6996966996696996, 0x9669699669969669,
             0x9669699669969669, 0x6996966996696996]"

definition Row_Add :: "Row \<Rightarrow> Row \<Rightarrow> error + Row" where
  "Row_Add e f =
     (if length e \<noteq> length f then Inl AddSizePanic
      else Inr (map2 (XOR) e f))"

definition Row_Mul :: "Row \<Rightarrow> Row \<Rightarrow> error + Row" where
  "Row_Mul e f =
     (if length e \<noteq> length f then Inl MulSizePanic
      else Inr (map2 (AND) e f))"

definition parity_step :: "byte \<Rightarrow> 64 word \<Rightarrow> 64 word" where
  "parity_step g_i parity =
     parity XOR (drop_bit (unat g_i mod 64) (weight ! (unat g_i div 64)) AND 1)"

definition DotProduct :: "Row \<Rightarrow> Row \<Rightarrow> error + bool" where
  "DotProduct e f =
     (case Row_Mul e f of
        Inl err \<Rightarrow> Inl err
      | Inr g \<Rightarrow> Inr (fold parity_step g 0 = 1))"

definition GetBit :: "Row \<Rightarrow> nat \<Rightarrow> error + byte" where
  "GetBit e i =
     (if i div 8 < length e then Inr (drop_bit (i mod 8) (e ! (i div 8)) AND 1)
      else Inl IndexOutOfRange)"

definition SetBit :: "Row \<Rightarrow> nat \<Rightarrow> bool \<Rightarrow> error + Row" where
  "SetBit e i x =
     (case GetBit e i of
        Inl err \<Rightarrow> Inl err
      | Inr y \<Rightarrow>
          if (y = 0 \<and> x) \<or> (y = 1 \<and> \<not> x)
          then Inr (e[i div 8 := (e ! (i div 8)) XOR push_bit (i mod 8) 1])
          else Inr e)"

definition Row_Size :: "Row \<Rightarrow> nat" where
  "Row_Size e = 8 * length e"

function Weight_loop :: "Row \<Rightarrow> nat \<Rightarrow> nat \<Rightarrow> error + nat" where
  "Weight_loop e i w =
     (if i < Row_Size e then
        (case GetBit e i of
           Inl err \<Rightarrow> Inl err
         | Inr b \<Rightarrow> Weight_loop e (i + 1) (if b = 1 then w + 1 else w))
      else Inr w)"
  by pat_completeness auto
termination
  by (relation "measure (\<lambda>(e, i, w). Row_Size e - i)") auto

definition Weight :: "Row \<Rightarrow> error + nat" where
  "Weight e = Weight_loop e 0 0"

text \<open>The bit of a row at a position, as a truth value.\<close>

definition bit_at :: "Row \<Rightarrow> nat \<Rightarrow> bool" where
  "bit_at e i = bit (e ! (i div 8)) (i mod 8)"

definition common_ones :: "Row \<Rightarrow> Row \<Rightarrow> nat" where
  "common_ones e f =
     length (filter (\<lambda>i. bit_at e i \<and> bit_at f i) [0..<8 * length e])"

definition parity8 :: "byte \<Rightarrow> bool" where
  "parity8 b = odd (length (filter (bit b) [0..<8]))"


definition ones :: "Row \<Rightarrow> nat" where
  "ones g = length (filter (bit_at g) [0..<8 * length g])"

text \<open>The XOR of two rows, the zero vector and the unit vectors of width \<open>k\<close>.\<close>

definition xor_rows :: "Row \<Rightarrow> Row \<Rightarrow> Row" where
  "xor_rows e f = map2 (XOR) e f"

definition zero_row :: "nat \<Rightarrow> Row" where
  "zero_row k = replicate (k div 8) 0"

definition unit_row :: "nat \<Rightarrow> nat \<Rightarrow> Row" where
  "unit_row k i = (zero_row k)[i div 8 := push_bit (i mod 8) 1]"

section \<open>Matrices\<close>

definition Matrix_Size :: "Matrix \<Rightarrow> error + (nat \<times> nat)" where
  "Matrix_Size e =
     (case e of
        [] \<Rightarrow> Inl IndexOutOfRange
      | r # _ \<Rightarrow> Inr (length e, Row_Size r))"

function Mul_loop :: "Matrix \<Rightarrow> Row \<Rightarrow> nat \<Rightarrow> nat \<Rightarrow> Row \<Rightarrow> error + Row" where
  "Mul_loop e f out i res =
     (if i < out then
        (case DotProduct (e ! i) f of
           Inl err \<Rightarrow> Inl err
         | Inr d \<Rightarrow>
             if d then
               (case SetBit res i True of
                  Inl err \<Rightarrow> Inl err
                | Inr res' \<Rightarrow> Mul_loop e f out (i + 1) res')
             else Mul_loop e f out (i + 1) res)
      else Inr res)"
  by pat_completeness auto
termination
  by (relation "measure (\<lambda>(e, f, out, i, res). out - i)") auto

definition Matrix_Mul :: "Matrix \<Rightarrow> Row \<Rightarrow> error + Row" where
  "Matrix_Mul e f =
     (case Matrix_Size e of
        Inl err \<Rightarrow> Inl err
      | Inr (out, inp) \<Rightarrow>
          if inp \<noteq> Row_Size f then Inl MatMulSizePanic
          else Mul_loop e f out 0 (replicate (out div 8) 0))"

definition GenerateEmpty :: "nat \<Rightarrow> Matrix" where
  "GenerateEmpty n = replicate n (replicate (n div 8) 0)"

function Identity_loop :: "Matrix \<Rightarrow> nat \<Rightarrow> nat \<Rightarrow> error + Matrix" where
  "Identity_loop out n i =
     (if i < n then
        (case SetBit (out ! i) i True of
           Inl err \<Rightarrow> Inl err
         | Inr r \<Rightarrow> Identity_loop (out[i := r]) n (i + 1))
      else Inr out)"
  by pat_completeness auto
termination
  by (relation "measure (\<lambda>(out, n, i). n - i)") auto

definition GenerateIdentity :: "nat \<Rightarrow> error + Matrix" where
  "GenerateIdentity n = Identity_loop (GenerateEmpty n) n 0"

text \<open>
  The search for a pivot row: \<open>candId\<close> starts at 255 and is overwritten by the
  first index \<open>i\<close> in \<open>row..a-1\<close> whose row has bit \<open>row\<close> set.
\<close>

function find_cand :: "Matrix \<Rightarrow> nat \<Rightarrow> nat \<Rightarrow> nat \<Rightarrow> nat \<Rightarrow> error + nat" where
  "find_cand f row a i candId =
     (if i < a then
        (case GetBit (f ! i) row of
           Inl err \<Rightarrow> Inl err
         | Inr b \<Rightarrow> if b = 1 then Inr i else find_cand f row a (i + 1) candId)
      else Inr candId)"
  by pat_completeness auto
termination
  by (relation "measure (\<lambda>(f, row, a, i, candId). a - i)") auto

function cancel_loop ::
  "Matrix \<Rightarrow> Matrix \<Rightarrow> nat \<Rightarrow> nat \<Rightarrow> nat \<Rightarrow> error + (Matrix \<times> Matrix)" where
  "cancel_loop f out a row i =
     (if i < a then
        (if i = row then cancel_loop f out a row (i + 1)
         else
           (case GetBit (f ! i) row of
              Inl err \<Rightarrow> Inl err
            | Inr b \<Rightarrow>
                if b = 1 then
                  (case Row_Add (f ! i) (f ! row) of
                     Inl err \<Rightarrow> Inl err
                   | Inr fi \<Rightarrow>
                       (case Row_Add (out ! i) (out ! row) of
                          Inl err \<Rightarrow> Inl err
                        | Inr oi \<Rightarrow> cancel_loop (f[i := fi]) (out[i := oi]) a row (i + 1)))
                else cancel_loop f out a row (i + 1)))
      else Inr (f, out))"
  by pat_completeness auto
termination
  by (relation "measure (\<lambda>(f, out, a, row, i). a - i)") auto

function Invert_loop :: "Matrix \<Rightarrow> Matrix \<Rightarrow> nat \<Rightarrow> nat \<Rightarrow> error + (Matrix \<times> bool)" where
  "Invert_loop f out a row =
     (if row < a then
        (case find_cand f row a row 255 of
           Inl err \<Rightarrow> Inl err
         | Inr candId \<Rightarrow>
             if candId = 255 then Inr (out, False)
             else
               (case cancel_loop (f[row := f ! candId, candId := f ! row])
                       (out[row := out ! candId, candId := out ! row]) a row 0 of
                  Inl err \<Rightarrow> Inl err
                | Inr (f', out') \<Rightarrow> Invert_loop f' out' a (row + 1)))
      else Inr (out, True))"
  by pat_completeness auto
termination
  by (relation "measure (\<lambda>(f, out, a, row). a - row)") auto

definition Invert :: "Matrix \<Rightarrow> error + (Matrix \<times> bool)" where
  "Invert e =
     (case Matrix_Size e of
        Inl err \<Rightarrow> Inl err
      | Inr (a, b) \<Rightarrow>
          if a \<noteq> b then Inl NonSquarePanic
          else
            (case GenerateIdentity a of
               Inl err \<Rightarrow> Inl err
             | Inr out \<Rightarrow> Invert_loop e out a 0))"

function Trace_loop :: "Matrix \<Rightarrow> nat \<Rightarrow> nat \<Rightarrow> byte \<Rightarrow> error + byte" where
  "Trace_loop e n i out =
     (if i < n then
        (case e ! i of
           [] \<Rightarrow> Inl IndexOutOfRange
         | b # _ \<Rightarrow> Trace_loop e n (i + 1) (out XOR (drop_bit i b AND 1)))
      else Inr out)"
  by pat_completeness auto
termination
  by (relation "measure (\<lambda>(e, n, i, out). n - i)") auto

definition Trace :: "Matrix \<Rightarrow> error + byte" where
  "Trace e =
     (case Matrix_Size e of
        Inl err \<Rightarrow> Inl err
      | Inr (n, _) \<Rightarrow> Trace_loop e n 0 0)"

text \<open>The parity of the diagonal of a matrix with \<open>n\<close> rows, read with \<open>GetBit\<close>.\<close>

definition diag_parity :: "Matrix \<Rightarrow> nat \<Rightarrow> bool" where
  "diag_parity e n = odd (length (filter (\<lambda>i. GetBit (e ! i) i = Inr 1) [0..<n]))"

section \<open>Random generation\<close>

text \<open>
  The reader is a state \<open>'r\<close> with a function \<open>rd\<close> that hands out at most the
  requested number of bytes; \<open>Read\<close> writes them over the front of the zeroed row
  and the call's results are ignored, as in the source.
\<close>

definition read_row :: "('r \<Rightarrow> nat \<Rightarrow> byte list \<times> 'r) \<Rightarrow> 'r \<Rightarrow> nat \<Rightarrow> Row \<times> 'r" where
  "read_row rd r k =
     (let (bs, r') = rd r k
      in (take k bs @ replicate (k - length bs) 0, r'))"

function draw_loop ::
  "('r \<Rightarrow> nat \<Rightarrow> byte list \<times> 'r) \<Rightarrow> 'r \<Rightarrow> nat \<Rightarrow> nat \<Rightarrow> Matrix \<Rightarrow> Matrix \<times> 'r" where
  "draw_loop rd r n i m =
     (if i < n then
        (let (row, r') = read_row rd r (n div 8)
         in draw_loop rd r' n (i + 1) (m[i := row]))
      else (m, r))"
  by pat_completeness auto
termination
  by (relation "measure (\<lambda>(rd, r, n, i, m). n - i)") auto

partial_function (option) GenerateRandom ::
  "('r \<Rightarrow> nat \<Rightarrow> byte list \<times> 'r) \<Rightarrow> 'r \<Rightarrow> nat \<Rightarrow> (error + (Matrix \<times> 'r)) option" where
  "GenerateRandom rd r n =
     (case draw_loop rd r n 0 (replicate n []) of
        (m, r') \<Rightarrow>
          (case Invert m of
             Inl err \<Rightarrow> Some (Inl err)
           | Inr (_, ok) \<Rightarrow>
               if ok then Some (Inr (m, r')) else GenerateRandom rd r' n))"

text \<open>A reader over a finite buffer: it hands out what is left, then nothing.\<close>

definition buf_read :: "byte list \<Rightarrow> nat \<Rightarrow> byte list \<times> byte list" where
  "buf_read r k = (take k r, drop k r)"


section \<open>Inversion over an explicit store of rows\<close>

text \<open>
  A row is a slice over a byte array; a matrix is a slice of rows. To see what
  \<open>Invert\<close> writes, the rows live in a store (address = index, allocation
  appends) and a matrix is the list of the addresses of its rows. \<open>Add\<close>
  allocates its result, \<open>SetBit\<close> writes in place, \<open>copy(f, e)\<close> copies the
  addresses. Every operation returns the store, also when it panics.
\<close>

type_synonym addr = nat
type_synonym store = "Row list"

definition Row_Add_h :: "store \<Rightarrow> addr \<Rightarrow> addr \<Rightarrow> store \<times> (error + addr)" where
  "Row_Add_h h e f =
     (case Row_Add (h ! e) (h ! f) of
        Inl err \<Rightarrow> (h, Inl err)
      | Inr r \<Rightarrow> (h @ [r], Inr (length h)))"

definition SetBit_h :: "store \<Rightarrow> addr \<Rightarrow> nat \<Rightarrow> bool \<Rightarrow> store \<times> (error + unit)" where
  "SetBit_h h e i x =
     (case SetBit (h ! e) i x of
        Inl err \<Rightarrow> (h, Inl err)
      | Inr r \<Rightarrow> (h[e := r], Inr ()))"

definition Matrix_Size_h :: "store \<Rightarrow> addr list \<Rightarrow> error + (nat \<times> nat)" where
  "Matrix_Size_h h e =
     (case e of
        [] \<Rightarrow> Inl IndexOutOfRange
      | r # _ \<Rightarrow> Inr (length e, Row_Size (h ! r)))"

definition GenerateEmpty_h :: "store \<Rightarrow> nat \<Rightarrow> store \<times> addr list" where
  "GenerateEmpty_h h n =
     (h @ replicate n (replicate (n div 8) 0), [length h..<length h + n])"

function Identity_loop_h :: "store \<Rightarrow> addr list \<Rightarrow> nat \<Rightarrow> nat \<Rightarrow> store \<times> (error + addr list)" where
  "Identity_loop_h h out n i =
     (if i < n then
        (case SetBit_h h (out ! i) i True of
           (h', Inl err) \<Rightarrow> (h', Inl err)
         | (h', Inr _) \<Rightarrow> Identity_loop_h h' out n (i + 1))
      else (h, Inr out))"
  by pat_completeness auto
termination
  by (relation "measure (\<lambda>(h, out, n, i). n - i)") auto

definition GenerateIdentity_h :: "store \<Rightarrow> nat \<Rightarrow> store \<times> (error + addr list)" where
  "GenerateIdentity_h h n =
     (case GenerateEmpty_h h n of (h', out) \<Rightarrow> Identity_loop_h h' out n 0)"

function find_cand_h ::
  "store \<Rightarrow> addr list \<Rightarrow> nat \<Rightarrow> nat \<Rightarrow> nat \<Rightarrow> nat \<Rightarrow> error + nat" where
  "find_cand_h h f row a i candId =
     (if i < a then
        (case GetBit (h ! (f ! i)) row of
           Inl err \<Rightarrow> Inl err
         | Inr b \<Rightarrow> if b = 1 then Inr i else find_cand_h h f row a (i + 1) candId)
      else Inr candId)"
  by pat_completeness auto
termination
  by (relation "measure (\<lambda>(h, f, row, a, i, candId). a - i)") auto

function cancel_loop_h ::
  "store \<Rightarrow> addr list \<Rightarrow> addr list \<Rightarrow> nat \<Rightarrow> nat \<Rightarrow> nat
     \<Rightarrow> store \<times> (error + (addr list \<times> addr list))" where
  "cancel_loop_h h f out a row i =
     (if i < a then
        (if i = row then cancel_loop_h h f out a row (i + 1)
         else
           (case GetBit (h ! (f ! i)) row of
              Inl err \<Rightarrow> (h, Inl err)
            | Inr b \<Rightarrow>
                if b = 1 then
                  (case Row_Add_h h (f ! i) (f ! row) of
                     (h1, Inl err) \<Rightarrow> (h1, Inl err)
                   | (h1, Inr fi) \<Rightarrow>
                       (case Row_Add_h h1 (out ! i) (out ! row) of
                          (h2, Inl err) \<Rightarrow> (h2, Inl err)
                        | (h2, Inr oi) \<Rightarrow>
                            cancel_loop_h h2 (f[i := fi]) (out[i := oi]) a row (i + 1)))
                else cancel_loop_h h f out a row (i + 1)))
      else (h, Inr (f, out)))"
  by pat_completeness auto
termination
  by (relation "measure (\<lambda>(h, f, out, a, row, i). a - i)") auto

function Invert_loop_h ::
  "store \<Rightarrow> addr list \<Rightarrow> addr list \<Rightarrow> nat \<Rightarrow> nat \<Rightarrow> store \<times> (error + (addr list \<times> bool))" where
  "Invert_loop_h h f out a row =
     (if row < a then
        (case find_cand_h h f row a row 255 of
           Inl err \<Rightarrow> (h, Inl err)
         | Inr candId \<Rightarrow>
             if candId = 255 then (h, Inr (out, False))
             else
               (case cancel_loop_h h (f[row := f ! candId, candId := f ! row])
                       (out[row := out ! candId, candId := out ! row]) a row 0 of
                  (h', Inl err) \<Rightarrow> (h', Inl err)
                | (h', Inr (f', out')) \<Rightarrow> Invert_loop_h h' f' out' a (row + 1)))
      else (h, Inr (out, True)))"
  by pat_completeness auto
termination
  by (relation "measure (\<lambda>(h, f, out, a, row). a - row)") auto

definition Invert_h :: "store \<Rightarrow> addr list \<Rightarrow> store \<times> (error + (addr list \<times> bool))" where
  "Invert_h h e =
     (case Matrix_Size_h h e of
        Inl err \<Rightarrow> (h, Inl err)
      | Inr (a, b) \<Rightarrow>
          if a \<noteq> b then (h, Inl NonSquarePanic)
          else
            (case GenerateIdentity_h h a of
               (h', Inl err) \<Rightarrow> (h', Inl err)
             | (h', Inr out) \<Rightarrow> Invert_loop_h h' e out a 0))"

function Trace_loop_h :: "store \<Rightarrow> addr list \<Rightarrow> nat \<Rightarrow> nat \<Rightarrow> byte \<Rightarrow> store \<times> (error + byte)" where
  "Trace_loop_h h e n i out =
     (if i < n then
        (case h ! (e ! i) of
           [] \<Rightarrow> (h, Inl IndexOutOfRange)
         | b # _ \<Rightarrow> Trace_loop_h h e n (i + 1) (out XOR (drop_bit i b AND 1)))
      else (h, Inr out))"
  by pat_completeness auto
termination
  by (relation "measure (\<lambda>(h, e, n, i, out). n - i)") auto

definition Trace_h :: "store \<Rightarrow> addr list \<Rightarrow> store \<times> (error + byte)" where
  "Trace_h h e =
     (case Matrix_Size_h h e of
        Inl err \<Rightarrow> (h, Inl err)
      | Inr (n, _) \<Rightarrow> Trace_loop_h h e n 0 0)"

text \<open>The matrix a list of addresses stands for in a store.\<close>

definition deref :: "store \<Rightarrow> addr list \<Rightarrow> Matrix" where
  "deref h e = map (\<lambda>a. h ! a) e"


text \<open>Running one fallible step after another: the first panic wins.\<close>

definition and_then :: "error + 'a \<Rightarrow> ('a \<Rightarrow> error + 'b) \<Rightarrow> error + 'b" where
  "and_then x g = (case x of Inl err \<Rightarrow> Inl err | Inr y \<Rightarrow> g y)"

section \<open>The incremental builder\<close>

text \<open>
  The file that implements the builder is not among the sources; only its test is.
  Everything in this section is written from the specification's description of the
  builder (its data model and the four steps of \<open>Add\<close>).
\<close>

text \<open>Modelled from the spec: the builder's state (target dimension, the accepted raw
  rows, their reduced-echelon form, and one coefficient vector per accepted row as the
  inverse-tracking structure); the struct itself is in the missing incremental.go.\<close>

record IncrementalMatrix =
  dim :: nat
  raw :: Matrix
  simplest :: Matrix
  inverse_trk :: Matrix

text \<open>Modelled from the spec: the leading set bit of a row (its pivot column), none
  for the zero vector.\<close>

definition leading :: "Row \<Rightarrow> nat option" where
  "leading e = List.find (bit_at e) [0..<8 * length e]"

text \<open>Modelled from the spec: the position of the simplest row whose pivot is column
  \<open>p\<close>, if \<open>p\<close> is a pivot column.\<close>

definition pivot_row :: "Matrix \<Rightarrow> nat \<Rightarrow> nat option" where
  "pivot_row S p = List.find (\<lambda>k. leading (S ! k) = Some p) [0..<length S]"

text \<open>Modelled from the spec: step 1 of \<open>Add\<close>, over the columns in increasing order:
  where the column is a pivot and the row has that bit set, XOR the simplest row of that
  pivot into the row and its coefficient vector into the row's coefficient vector.\<close>

fun reduce_cols :: "Matrix \<Rightarrow> Matrix \<Rightarrow> nat list \<Rightarrow> Row \<times> Row \<Rightarrow> Row \<times> Row" where
  "reduce_cols S C [] rc = rc"
| "reduce_cols S C (p # ps) (row, coef) =
     (case pivot_row S p of
        None \<Rightarrow> reduce_cols S C ps (row, coef)
      | Some k \<Rightarrow>
          if bit_at row p
          then reduce_cols S C ps (xor_rows row (S ! k), xor_rows coef (C ! k))
          else reduce_cols S C ps (row, coef))"

text \<open>Modelled from the spec: the reduction of a candidate row against the current
  simplest rows, with the coefficient vector it ends with.\<close>

definition reduce :: "IncrementalMatrix \<Rightarrow> Row \<Rightarrow> Row \<times> Row" where
  "reduce im row =
     reduce_cols (simplest im) (inverse_trk im) [0..<dim im]
       (row, unit_row (dim im) (length (raw im)))"

text \<open>Modelled from the spec: \<open>New(n)\<close>, the empty builder.\<close>

definition NewIncrementalMatrix :: "nat \<Rightarrow> IncrementalMatrix" where
  "NewIncrementalMatrix k = \<lparr>dim = k, raw = [], simplest = [], inverse_trk = []\<rparr>"

text \<open>Modelled from the spec: \<open>Add(row)\<close>. A row of the wrong width fails fast; a row
  that reduces to zero is rejected and the state returned as it was; otherwise the new
  pivot row is XORed into every simplest row that has the new pivot bit set (and its
  coefficient vector into theirs), and the raw row, the reduced row and the coefficient
  vector are appended.\<close>

definition Add :: "IncrementalMatrix \<Rightarrow> Row \<Rightarrow> error + (IncrementalMatrix \<times> bool)" where
  "Add im row =
     (if Row_Size row \<noteq> dim im then Inl WrongWidthPanic
      else
        (case reduce im row of
           (red, coef) \<Rightarrow>
             (case leading red of
                None \<Rightarrow> Inr (im, False)
              | Some p \<Rightarrow>
                  Inr (im\<lparr>raw := raw im @ [row],
                          simplest :=
                            map (\<lambda>s. if bit_at s p then xor_rows s red else s) (simplest im)
                            @ [red],
                          inverse_trk :=
                            map2 (\<lambda>s c. if bit_at s p then xor_rows c coef else c)
                              (simplest im) (inverse_trk im)
                            @ [coef]\<rparr>,
                       True))))"

text \<open>Modelled from the spec: \<open>Len()\<close>, the current rank.\<close>

definition Len :: "IncrementalMatrix \<Rightarrow> nat" where
  "Len im = length (raw im)"

text \<open>Modelled from the spec: \<open>FullyDefined()\<close>, true iff the rank is the dimension.\<close>

definition FullyDefined :: "IncrementalMatrix \<Rightarrow> bool" where
  "FullyDefined im = (Len im = dim im)"

text \<open>Modelled from the spec: \<open>Matrix()\<close>, the raw rows in insertion order.\<close>

definition Matrix_of :: "IncrementalMatrix \<Rightarrow> Matrix" where
  "Matrix_of im = raw im"

text \<open>Modelled from the spec: \<open>Inverse()\<close>, derived from the inverse-tracking
  structure: row \<open>p\<close> of the result is the coefficient vector of the simplest row whose
  pivot is \<open>p\<close> (the zero vector while \<open>p\<close> is not a pivot yet).\<close>

definition Inverse_of :: "IncrementalMatrix \<Rightarrow> Matrix" where
  "Inverse_of im =
     map (\<lambda>p. case pivot_row (simplest im) p of
                 None \<Rightarrow> zero_row (dim im)
               | Some k \<Rightarrow> inverse_trk im ! k)
       [0..<dim im]"

text \<open>Modelled from the spec: \<open>IsInSpan(row)\<close>, the reduction of step 1 without any
  change of state.\<close>

definition IsInSpan :: "IncrementalMatrix \<Rightarrow> Row \<Rightarrow> error + bool" where
  "IsInSpan im row =
     (if Row_Size row \<noteq> dim im then Inl WrongWidthPanic
      else Inr (leading (fst (reduce im row)) = None))"

text \<open>Feeding rows to a builder one after the other, keeping every answer of \<open>Add\<close>.\<close>

fun feed :: "IncrementalMatrix \<Rightarrow> Row list \<Rightarrow> error + (IncrementalMatrix \<times> bool list)" where
  "feed im [] = Inr (im, [])"
| "feed im (r # rs) =
     (case Add im r of
        Inl err \<Rightarrow> Inl err
      | Inr (im', ok) \<Rightarrow>
          (case feed im' rs of
             Inl err \<Rightarrow> Inl err
           | Inr (im'', oks) \<Rightarrow> Inr (im'', ok # oks)))"

text \<open>The XOR of the rows selected by \<open>sel\<close> (by position), from the zero vector.\<close>

definition xor_comb :: "nat \<Rightarrow> (nat \<Rightarrow> bool) \<Rightarrow> Matrix \<Rightarrow> Row" where
  "xor_comb k sel rows =
     fold (\<lambda>j acc. if sel j then xor_rows acc (rows ! j) else acc)
       [0..<length rows] (zero_row k)"


section \<open>Notions used to state the properties\<close>

text \<open>The dot product of two rows as a truth value.\<close>

definition dotb :: "Row \<Rightarrow> Row \<Rightarrow> bool" where
  "dotb e f = odd (common_ones e f)"

text \<open>The identity matrix of dimension \<open>k\<close>, row by row.\<close>

definition ident :: "nat \<Rightarrow> Matrix" where
  "ident k = map (unit_row k) [0..<k]"

text \<open>A square matrix of dimension \<open>k\<close> (a multiple of 8) whose rows all have
  \<open>k div 8\<close> bytes.\<close>

definition wf_mat :: "nat \<Rightarrow> Matrix \<Rightarrow> bool" where
  "wf_mat k e = (8 dvd k \<and> length e = k \<and> (\<forall>r\<in>set e. length r = k div 8))"

text \<open>The row of width \<open>k\<close> with the given bits, and the product of a matrix and a
  vector as a value: bit \<open>i\<close> is the dot product of row \<open>i\<close> and the vector.\<close>

definition row_of_bits :: "nat \<Rightarrow> (nat \<Rightarrow> bool) \<Rightarrow> Row" where
  "row_of_bits k P =
     map (\<lambda>j. horner_sum of_bool 2 (map (\<lambda>b. P (8 * j + b)) [0..<8])) [0..<k div 8]"

definition mulv :: "Matrix \<Rightarrow> Row \<Rightarrow> Row" where
  "mulv e v = row_of_bits (length e) (\<lambda>i. dotb (e ! i) v)"

text \<open>The two steps of a round of elimination: the swap of two rows, and the
  cancellation of column \<open>row\<close> in the rows of \<open>g\<close> chosen by the bits of \<open>f\<close>.\<close>

definition swap_rows :: "Matrix \<Rightarrow> nat \<Rightarrow> nat \<Rightarrow> Matrix" where
  "swap_rows f i j = f[i := f ! j, j := f ! i]"

definition cancel_rows :: "Matrix \<Rightarrow> Matrix \<Rightarrow> nat \<Rightarrow> Matrix" where
  "cancel_rows f g row =
     map (\<lambda>j. if j \<noteq> row \<and> bit_at (f ! j) row then xor_rows (g ! j) (g ! row) else g ! j)
       [0..<length g]"

text \<open>The invariant of elimination: row \<open>i\<close> of the working copy applied to a vector
  is row \<open>i\<close> of the augmentation applied to the image of the vector under \<open>M\<close>; and
  the columns already processed are unit columns.\<close>

definition inv_rel :: "Matrix \<Rightarrow> Matrix \<Rightarrow> Matrix \<Rightarrow> bool" where
  "inv_rel M f out =
     (\<forall>i<length M. \<forall>v. length v = length M div 8 \<longrightarrow>
        dotb (f ! i) v = dotb (out ! i) (mulv M v))"

definition unit_cols :: "nat \<Rightarrow> Matrix \<Rightarrow> nat \<Rightarrow> bool" where
  "unit_cols k f c = (\<forall>j<c. \<forall>i<k. bit_at (f ! i) j = (i = j))"

text \<open>The parity of the number of positions below \<open>m\<close> that satisfy \<open>P\<close>.\<close>

definition par :: "nat \<Rightarrow> (nat \<Rightarrow> bool) \<Rightarrow> bool" where
  "par m P = odd (length (filter P [0..<m]))"

text \<open>The pivot column of a row (out of range for the zero vector), and the reduced
  echelon form: every row has a pivot, and a pivot column is set in its own row only.\<close>

definition pivot_of :: "Row \<Rightarrow> nat" where
  "pivot_of e = (case leading e of None \<Rightarrow> 8 * length e | Some p \<Rightarrow> p)"

definition echelon :: "nat \<Rightarrow> Matrix \<Rightarrow> bool" where
  "echelon k S =
     ((\<forall>a<length S. length (S ! a) = k div 8 \<and> leading (S ! a) \<noteq> None)
      \<and> (\<forall>a<length S. \<forall>b<length S. bit_at (S ! b) (pivot_of (S ! a)) = (b = a)))"

text \<open>The invariant of the builder, on its three lists: equal lengths and row widths,
  the simplest rows in reduced echelon form, every simplest row the XOR of the raw rows
  its coefficient vector selects, coefficient vectors zero beyond the accepted rows, and
  every raw row reduced to zero by the simplest rows.\<close>

definition binv :: "nat \<Rightarrow> Matrix \<Rightarrow> Matrix \<Rightarrow> Matrix \<Rightarrow> bool" where
  "binv k R S C =
     (8 dvd k \<and> length S = length R \<and> length C = length R \<and> echelon k S
      \<and> (\<forall>a<length R. length (R ! a) = k div 8 \<and> length (C ! a) = k div 8)
      \<and> (\<forall>a<length R. \<forall>i<k.
            bit_at (S ! a) i = par (length R) (\<lambda>j. bit_at (C ! a) j \<and> bit_at (R ! j) i))
      \<and> (\<forall>a<length R. \<forall>j<k. length R \<le> j \<longrightarrow> \<not> bit_at (C ! a) j)
      \<and> (\<forall>j<length R. \<forall>i<k.
            bit_at (R ! j) i
            = par (length R) (\<lambda>a. bit_at (R ! j) (pivot_of (S ! a)) \<and> bit_at (S ! a) i)))"

definition builder_inv :: "IncrementalMatrix \<Rightarrow> bool" where
  "builder_inv im = binv (dim im) (raw im) (simplest im) (inverse_trk im)"

text \<open>Every address of a matrix points into the store.\<close>

definition valid_in :: "store \<Rightarrow> addr list \<Rightarrow> bool" where
  "valid_in h e = (\<forall>a\<in>set e. a < length h)"

text \<open>\<open>N\<close> is a two-sided inverse of the square matrix \<open>M\<close>, as maps on the rows of
  the matrix's width: this is what "invertible" means, whatever \<open>Invert\<close> answers.\<close>

definition inverse_pair :: "Matrix \<Rightarrow> Matrix \<Rightarrow> bool" where
  "inverse_pair M N =
     (wf_mat (length M) M \<and> wf_mat (length M) N
      \<and> (\<forall>v. length v = length M div 8 \<longrightarrow>
             mulv N (mulv M v) = v \<and> mulv M (mulv N v) = v))"

text \<open>The identity matrix of dimension 256 with its last two rows exchanged.\<close>

definition swapped_identity :: Matrix where
  "swapped_identity = (ident 256)[254 := unit_row 256 255, 255 := unit_row 256 254]"

declare Weight_loop.simps [simp del]
declare Mul_loop.simps [simp del]
declare Identity_loop.simps [simp del]
declare find_cand.simps [simp del]
declare cancel_loop.simps [simp del]
declare Invert_loop.simps [simp del]
declare Trace_loop.simps [simp del]
declare draw_loop.simps [simp del]
declare Identity_loop_h.simps [simp del]
declare find_cand_h.simps [simp del]
declare cancel_loop_h.simps [simp del]
declare Invert_loop_h.simps [simp del]
declare Trace_loop_h.simps [simp del]

section \<open>The dot product\<close>

lemma weight_table_nat:
  "\<forall>k\<in>set [0..<256].
     (drop_bit (k mod 64) (weight ! (k div 64)) AND 1) = (of_bool (parity8 (of_nat k)) :: 64 word)"
  unfolding parity8_def weight_def by code_simp

lemma weight_table:
  "drop_bit (unat g mod 64) (weight ! (unat g div 64)) AND 1 = (of_bool (parity8 g) :: 64 word)"
proof -
  have "unat g < 256" using unsigned_less [of g, where 'a = nat] by simp
  then have "unat g \<in> set [0..<256]" by simp
  from weight_table_nat [rule_format, OF this] show ?thesis by simp
qed

lemma parity_step_eq: "parity_step g p = p XOR of_bool (parity8 g)"
  by (simp add: parity_step_def weight_table)

lemma of_bool_xor64: "(of_bool p :: 64 word) XOR of_bool q = of_bool (p \<noteq> q)"
  by (cases p; cases q) simp_all

lemma fold_parity:
  "fold parity_step gs (of_bool p) = of_bool (fold (\<lambda>g q. q \<noteq> parity8 g) gs p)"
proof (induction gs arbitrary: p)
  case Nil
  then show ?case by simp
next
  case (Cons g gs)
  show ?case
    using Cons.IH [of "p \<noteq> parity8 g"]
    by (simp add: parity_step_eq of_bool_xor64)
qed

lemma bit_at_map2_and:
  "length e = length f \<Longrightarrow> i < 8 * length e \<Longrightarrow>
   bit_at (map2 (AND) e f) i = (bit_at e i \<and> bit_at f i)"
  by (simp add: bit_at_def bit_and_iff)

lemma bit_at_map2_xor:
  "length e = length f \<Longrightarrow> i < 8 * length e \<Longrightarrow>
   bit_at (map2 (XOR) e f) i = (bit_at e i \<noteq> bit_at f i)"
  by (simp add: bit_at_def bit_xor_iff)

lemma filter_upt_shift:
  "filter P [k..<k + m] = map (\<lambda>i. i + k) (filter (\<lambda>i. P (i + k)) [0..<m])"
proof -
  have "[k..<k + m] = map (\<lambda>i. i + k) [0..<m]"
    using map_add_upt [of k m] by (simp add: add.commute)
  then show ?thesis by (simp add: filter_map comp_def)
qed

lemma bit_at_Cons_shift: "bit_at (b # g) (i + 8) = bit_at g i"
proof -
  have "(i + 8) div 8 = Suc (i div 8)" and "(i + 8) mod 8 = i mod 8"
    by presburger+
  then show ?thesis unfolding bit_at_def by simp
qed

lemma ones_Nil: "ones [] = 0"
  by (simp add: ones_def)

lemma ones_Cons: "ones (b # g) = length (filter (bit b) [0..<8]) + ones g"
proof -
  have "[0..<8 * length (b # g)] = [0..<8] @ [8..<8 + 8 * length g]"
    by (simp add: upt_add_eq_append [symmetric])
  moreover have "filter (bit_at (b # g)) [0..<8] = filter (bit b) [0..<8]"
    by (rule filter_cong) (auto simp: bit_at_def)
  moreover have "length (filter (bit_at (b # g)) [8..<8 + 8 * length g]) = ones g"
    unfolding filter_upt_shift ones_def
    by (simp add: bit_at_Cons_shift)
  ultimately show ?thesis by (simp add: ones_def)
qed

lemma fold_parity_ones:
  "fold (\<lambda>g q. q \<noteq> parity8 g) gs p = (p \<noteq> odd (ones gs))"
  by (induction gs arbitrary: p) (auto simp: ones_Cons ones_Nil parity8_def)

lemma common_ones_eq:
  assumes "length e = length f"
  shows "common_ones e f = ones (map2 (AND) e f)"
proof -
  have "filter (\<lambda>i. bit_at e i \<and> bit_at f i) [0..<8 * length e]
      = filter (bit_at (map2 (AND) e f)) [0..<8 * length e]"
    by (rule filter_cong) (use assms in \<open>auto simp: bit_at_map2_and\<close>)
  then show ?thesis using assms by (simp add: common_ones_def ones_def)
qed

lemma DotProduct_parity:
  assumes "length e = length f"
  shows "DotProduct e f = Inr (odd (common_ones e f))"
proof -
  have "fold parity_step (map2 (AND) e f) 0 = (of_bool (odd (ones (map2 (AND) e f))) :: 64 word)"
    using fold_parity [of "map2 (AND) e f" False]
    unfolding fold_parity_ones by simp
  then show ?thesis
    using assms by (simp add: DotProduct_def Row_Mul_def common_ones_eq)
qed

text \<open>
  C8. For rows \<open>e\<close> and \<open>f\<close> of equal length, \<open>DotProduct\<close> returns true exactly
  when the number of bit positions where both rows have a 1 is odd; the parity of each
  byte of the AND of the rows is the entry of the fixed table \<open>weight\<close>, which holds
  the bit-count parity of every byte value.
\<close>

theorem DotProduct_is_parity:
  "length e = length f \<Longrightarrow>
     DotProduct e f = Inr (odd (common_ones e f))
     \<and> (\<forall>g :: byte. (drop_bit (unat g mod 64) (weight ! (unat g div 64)) AND 1 = 1)
                      = odd (length (filter (bit g) [0..<8])))"
proof
  assume "length e = length f"
  then show "DotProduct e f = Inr (odd (common_ones e f))"
    by (rule DotProduct_parity)
next
  show "\<forall>g :: byte. (drop_bit (unat g mod 64) (weight ! (unat g div 64)) AND 1 = 1)
                      = odd (length (filter (bit g) [0..<8]))"
    by (simp add: weight_table parity8_def)
qed

theorem DotProduct_is_parity_witness:
  "length [0x0F, 0x81 :: byte] = length [0x09, 0x80 :: byte]
   \<and> DotProduct [0x0F, 0x81] [0x09, 0x80] = Inr True
   \<and> common_ones [0x0F, 0x81] [0x09, 0x80] = 3"
proof -
  have c: "common_ones [0x0F, 0x81] [0x09, 0x80] = 3"
    by code_simp
  show ?thesis
    using DotProduct_is_parity [of "[0x0F, 0x81]" "[0x09, 0x80]"] c by simp
qed

section \<open>Size, Trace and the square check\<close>

text \<open>
  C10. \<open>Size\<close> reads row 0 whatever the matrix: on a matrix with no rows it panics
  with an index out of range, and so do \<open>Mul\<close>, \<open>Invert\<close> and \<open>Trace\<close>, which all
  begin with it.
\<close>

theorem Size_empty_panics:
  "Matrix_Size [] = Inl IndexOutOfRange \<and> Matrix_Mul [] f = Inl IndexOutOfRange
   \<and> Invert [] = Inl IndexOutOfRange \<and> Trace [] = Inl IndexOutOfRange"
  by (simp add: Matrix_Size_def Matrix_Mul_def Invert_def Trace_def)

text \<open>
  C3. \<open>Trace\<close> shifts byte 0 of row \<open>i\<close> right by \<open>i\<close>, so it reads the diagonal only
  in the first eight rows. On the 16 by 16 matrix whose only set bit is the diagonal
  entry of row 8 the parity of the diagonal is odd and \<open>Trace\<close> returns 0.
\<close>

theorem Trace_misses_diagonal:
  "Trace ((replicate 16 [0, 0])[8 := [0, 1]]) = Inr 0
   \<and> diag_parity ((replicate 16 [0, 0])[8 := [0, 1]]) 16"
  by code_simp

text \<open>
  C6. \<open>Invert\<close> checks that the matrix is square before anything else and panics
  when it is not (lemma \<open>Invert_nonsquare_fails_fast\<close> below). \<open>Trace\<close> has no such
  check: on the matrix of one row of width 8, which is not square, it raises nothing and
  returns the low bit of the row, where the claim demands the invalid-operand panic.
\<close>

theorem Trace_nonsquare_returns:
  "length [[1 :: byte]] \<noteq> Row_Size (hd [[1 :: byte]])
   \<and> Trace [[1]] = Inr 1
   \<and> Trace_h [[1]] [0] = ([[1]], Inr 1)"
  by code_simp

lemma Trace_loop_h_outcomes:
  "fst (Trace_loop_h h e k i out) = h
   \<and> (snd (Trace_loop_h h e k i out) = Inl IndexOutOfRange
        \<or> (\<exists>b. snd (Trace_loop_h h e k i out) = Inr b))"
proof (induction h e k i out rule: Trace_loop_h.induct)
  case (1 h e k i out)
  show ?case
  proof (cases "i < k")
    case False
    then show ?thesis by (subst (1 2 3) Trace_loop_h.simps) simp
  next
    case True
    show ?thesis
    proof (cases "h ! (e ! i)")
      case Nil
      with True show ?thesis
        by (subst (1 2 3) Trace_loop_h.simps) simp
    next
      case (Cons b bs)
      with True "1.IH" [OF True Cons] show ?thesis
        by (subst (1 2 3) Trace_loop_h.simps) simp
    qed
  qed
qed

text \<open>
  What does hold around the square check: a matrix with at least one row whose row count
  differs from the width of its first row makes \<open>Invert\<close> panic with the non-square
  message, the store being exactly as it was; \<open>Trace\<close>, whatever the matrix, writes
  nothing and answers a value or an index-out-of-range panic, never the non-square one.
\<close>

lemma Invert_nonsquare_fails_fast:
  assumes "e \<noteq> []" and "length e \<noteq> Row_Size (h ! hd e)"
  shows "Invert_h h e = (h, Inl NonSquarePanic)"
proof -
  obtain r rs where e: "e = r # rs" using assms(1) by (cases e) auto
  show ?thesis
    using assms(2) by (simp add: Invert_h_def Matrix_Size_h_def e)
qed

lemma Trace_h_outcomes:
  "fst (Trace_h h e) = h
   \<and> (snd (Trace_h h e) = Inl IndexOutOfRange \<or> (\<exists>b. snd (Trace_h h e) = Inr b))"
proof (cases e)
  case Nil
  then show ?thesis by (simp add: Trace_h_def Matrix_Size_h_def)
next
  case (Cons r rs)
  then show ?thesis
    using Trace_loop_h_outcomes [of h e "length e" 0 0]
    by (simp add: Trace_h_def Matrix_Size_h_def)
qed

section \<open>Bits of rows\<close>


lemma drop_bit_and_1: "drop_bit k (w :: byte) AND 1 = of_bool (bit w k)"
  by (rule bit_word_eqI) (auto simp: bit_simps)

lemma GetBit_eq:
  "i < 8 * length e \<Longrightarrow> GetBit e i = Inr (of_bool (bit_at e i))"
  by (simp add: GetBit_def bit_at_def drop_bit_and_1 less_mult_imp_div_less mult.commute)

lemma GetBit_1_iff:
  "i < 8 * length e \<Longrightarrow> (GetBit e i = Inr 1) = bit_at e i"
  by (simp add: GetBit_eq)

lemma div8_less: "i < 8 * m \<Longrightarrow> i div 8 < (m :: nat)"
  by (simp add: less_mult_imp_div_less mult.commute)

lemma bit_at_update:
  "k < length e \<Longrightarrow> bit_at (e[k := w]) j = (if j div 8 = k then bit w (j mod 8) else bit_at e j)"
  by (simp add: bit_at_def)

lemma Row_ext:
  assumes len: "length a = length b"
    and bits: "\<And>i. i < 8 * length a \<Longrightarrow> bit_at a i = bit_at b i"
  shows "a = b"
proof (rule nth_equalityI [OF len])
  fix k assume k: "k < length a"
  show "a ! k = b ! k"
  proof (rule bit_word_eqI)
    fix j assume "j < LENGTH(8)"
    then have j: "j < 8" by simp
    then have "8 * k + j < 8 * length a" using k by simp
    from bits [OF this] show "bit (a ! k) j = bit (b ! k) j"
      using j by (simp add: bit_at_def)
  qed
qed

lemma length_xor_rows: "length (xor_rows a b) = min (length a) (length b)"
  by (simp add: xor_rows_def)

lemma bit_at_xor_rows:
  "length a = length b \<Longrightarrow> i < 8 * length a \<Longrightarrow>
   bit_at (xor_rows a b) i = (bit_at a i \<noteq> bit_at b i)"
  by (simp add: xor_rows_def bit_at_map2_xor)

lemma Row_Add_xor: "length a = length b \<Longrightarrow> Row_Add a b = Inr (xor_rows a b)"
  by (simp add: Row_Add_def xor_rows_def)

lemma length_zero_row: "length (zero_row k) = k div 8"
  by (simp add: zero_row_def)

lemma bit_at_zero_row: "i < 8 * (k div 8) \<Longrightarrow> \<not> bit_at (zero_row k) i"
  by (simp add: zero_row_def bit_at_def div8_less)

lemma length_unit_row: "length (unit_row k i) = k div 8"
  by (simp add: unit_row_def zero_row_def)

lemma bit_push_1: "j < 8 \<Longrightarrow> bit (push_bit r (1 :: byte)) j = (j = r)"
  by (auto simp: bit_simps)

lemma bit_at_unit_row:
  assumes "i < 8 * (k div 8)" "j < 8 * (k div 8)"
  shows "bit_at (unit_row k i) j = (i = j)"
proof -
  have i: "i div 8 < length (zero_row k)" using assms(1) by (simp add: zero_row_def div8_less)
  have "bit_at (unit_row k i) j =
        (if j div 8 = i div 8 then bit (push_bit (i mod 8) (1 :: byte)) (j mod 8) else bit_at (zero_row k) j)"
    unfolding unit_row_def by (rule bit_at_update [OF i])
  also have "\<dots> = (j div 8 = i div 8 \<and> j mod 8 = i mod 8)"
    using bit_at_zero_row [OF assms(2)] bit_push_1 [of "j mod 8" "i mod 8"] by simp
  also have "\<dots> = (i = j)"
    by (metis div_mult_mod_eq)
  finally show ?thesis .
qed

lemma SetBit_True:
  assumes "i < 8 * length e"
  shows "\<exists>e'. SetBit e i True = Inr e' \<and> length e' = length e
          \<and> (\<forall>j<8 * length e. bit_at e' j = (j = i \<or> bit_at e j))"
proof (cases "bit_at e i")
  case True
  then show ?thesis using assms by (simp add: SetBit_def GetBit_eq) blast
next
  case False
  let ?e' = "e[i div 8 := (e ! (i div 8)) XOR push_bit (i mod 8) 1]"
  have k: "i div 8 < length e" using assms by (simp add: div8_less)
  have "SetBit e i True = Inr ?e'" using False assms by (simp add: SetBit_def GetBit_eq)
  moreover have "\<forall>j<8 * length e. bit_at ?e' j = (j = i \<or> bit_at e j)"
  proof (intro allI impI)
    fix j assume "j < 8 * length e"
    have "bit_at ?e' j = (if j div 8 = i div 8
            then bit ((e ! (i div 8)) XOR push_bit (i mod 8) 1) (j mod 8) else bit_at e j)"
      by (rule bit_at_update [OF k])
    also have "\<dots> = (if j div 8 = i div 8 then (bit_at e j \<noteq> (j mod 8 = i mod 8)) else bit_at e j)"
      using bit_push_1 [of "j mod 8" "i mod 8"] by (simp add: bit_xor_iff bit_at_def)
    also have "\<dots> = (j = i \<or> bit_at e j)"
      using False by (metis div_mult_mod_eq)
    finally show "bit_at ?e' j = (j = i \<or> bit_at e j)" .
  qed
  ultimately show ?thesis by simp
qed

lemma odd_filter_neq:
  "odd (length (filter (\<lambda>i. P i \<noteq> Q i) xs))
   = (odd (length (filter P xs)) \<noteq> odd (length (filter Q xs)))"
  by (induction xs) auto

lemma dotb_xor:
  assumes "length a = length b"
  shows "dotb (xor_rows a b) v = (dotb a v \<noteq> dotb b v)"
proof -
  have "filter (\<lambda>i. bit_at (xor_rows a b) i \<and> bit_at v i) [0..<8 * length a]
      = filter (\<lambda>i. (bit_at a i \<and> bit_at v i) \<noteq> (bit_at b i \<and> bit_at v i)) [0..<8 * length a]"
    by (rule filter_cong) (use assms in \<open>auto simp: bit_at_xor_rows\<close>)
  then show ?thesis
    using assms odd_filter_neq [of "\<lambda>i. bit_at a i \<and> bit_at v i" "\<lambda>i. bit_at b i \<and> bit_at v i"]
    by (simp add: dotb_def common_ones_def length_xor_rows)
qed

lemma filter_eq_index:
  "length (filter (\<lambda>j. j = i \<and> Q j) [0..<m]) = (if i < m \<and> Q i then 1 else 0)"
  by (induction m) auto

lemma dotb_cong_bits:
  assumes "length a = length b" "\<And>i. i < 8 * length a \<Longrightarrow> bit_at a i = bit_at b i"
  shows "dotb a v = dotb b v"
  using Row_ext [OF assms] by simp

lemma dotb_unit:
  assumes "i < 8 * (k div 8)"
  shows "dotb (unit_row k i) v = bit_at v i"
proof -
  have "filter (\<lambda>j. bit_at (unit_row k i) j \<and> bit_at v j) [0..<8 * (k div 8)]
      = filter (\<lambda>j. j = i \<and> bit_at v j) [0..<8 * (k div 8)]"
    by (rule filter_cong) (use assms in \<open>auto simp: bit_at_unit_row\<close>)
  then show ?thesis
    using assms by (simp add: dotb_def common_ones_def length_unit_row filter_eq_index)
qed

lemma dotb_zero: "dotb (zero_row k) v = False"
proof -
  have "filter (\<lambda>j. bit_at (zero_row k) j \<and> bit_at v j) [0..<8 * (k div 8)] = []"
    by (simp add: filter_empty_conv bit_at_zero_row)
  then show ?thesis by (simp add: dotb_def common_ones_def length_zero_row)
qed

lemma DotProduct_dotb: "length e = length f \<Longrightarrow> DotProduct e f = Inr (dotb e f)"
  by (simp add: dotb_def DotProduct_parity)

section \<open>Inverting the identity\<close>


lemma SetBit_zero_row:
  assumes "i < 8 * (k div 8)"
  shows "SetBit (zero_row k) i True = Inr (unit_row k i)"
proof -
  have "GetBit (zero_row k) i = Inr 0"
    using assms bit_at_zero_row [OF assms] by (simp add: GetBit_eq length_zero_row)
  moreover have "zero_row k ! (i div 8) = 0"
    using assms by (simp add: zero_row_def div8_less)
  ultimately show ?thesis by (simp add: SetBit_def unit_row_def)
qed

lemma Identity_loop_eq:
  "8 dvd k \<Longrightarrow> i \<le> k \<Longrightarrow> length out = k \<Longrightarrow>
   (\<forall>j<k. out ! j = (if j < i then unit_row k j else zero_row k)) \<Longrightarrow>
   Identity_loop out k i = Inr (ident k)"
proof (induction out k i rule: Identity_loop.induct)
  case (1 out k i)
  show ?case
  proof (cases "i < k")
    case False
    with "1.prems" have "i = k" by simp
    with "1.prems" have "out = ident k"
      by (intro nth_equalityI) (simp_all add: ident_def)
    with False show ?thesis by (subst Identity_loop.simps) simp
  next
    case True
    have k8: "8 * (k div 8) = k" using "1.prems"(1) by simp
    have s: "SetBit (out ! i) i True = Inr (unit_row k i)"
      using "1.prems" True SetBit_zero_row [of i k] k8 by simp
    have "Identity_loop (out[i := unit_row k i]) k (i + 1) = Inr (ident k)"
    proof (rule "1.IH" [OF True s])
      show "\<forall>j<k. out[i := unit_row k i] ! j = (if j < i + 1 then unit_row k j else zero_row k)"
        using "1.prems" True by (auto simp: nth_list_update less_Suc_eq)
    qed (use "1.prems" True in auto)
    with True s show ?thesis by (subst Identity_loop.simps) simp
  qed
qed

lemma GenerateIdentity_eq: "8 dvd k \<Longrightarrow> GenerateIdentity k = Inr (ident k)"
  unfolding GenerateIdentity_def
  by (rule Identity_loop_eq) (simp_all add: GenerateEmpty_def zero_row_def)

lemma length_ident: "length (ident k) = k"
  by (simp add: ident_def)

lemma nth_ident: "i < k \<Longrightarrow> ident k ! i = unit_row k i"
  by (simp add: ident_def)

lemma cancel_loop_noop:
  "(\<forall>j<a. j \<noteq> row \<longrightarrow> row < 8 * length (f ! j) \<and> \<not> bit_at (f ! j) row) \<Longrightarrow>
   cancel_loop f out a row i = Inr (f, out)"
proof (induction f out a row i rule: cancel_loop.induct)
  case (1 f out a row i)
  show ?case
  proof (cases "i < a")
    case False
    then show ?thesis by (subst cancel_loop.simps) simp
  next
    case True
    show ?thesis
    proof (cases "i = row")
      case True
      with \<open>i < a\<close> "1.IH"(1) "1.prems" show ?thesis by (subst cancel_loop.simps) simp
    next
      case False
      have g: "GetBit (f ! i) row = Inr 0"
        using "1.prems" True False by (simp add: GetBit_eq)
      have "cancel_loop f out a row (i + 1) = Inr (f, out)"
        using "1.IH"(3) [OF True False g] "1.prems" by simp
      with True False g show ?thesis by (subst cancel_loop.simps) simp
    qed
  qed
qed

lemma Invert_loop_ident:
  assumes k8: "8 dvd k"
  shows "row \<le> k \<Longrightarrow> f = ident k \<Longrightarrow> out = ident k \<Longrightarrow> a = k \<Longrightarrow>
         Invert_loop f out a row = Inr (ident k, \<not> (row \<le> 255 \<and> 255 < k))"
proof (induction f out a row rule: Invert_loop.induct)
  case (1 f out a row)
  have k8': "8 * (k div 8) = k" using k8 by simp
  show ?case
  proof (cases "row < a")
    case False
    with "1.prems" show ?thesis by (subst Invert_loop.simps) auto
  next
    case True
    then have rk: "row < k" using "1.prems" by simp
    have g: "GetBit (f ! row) row = Inr 1"
      using rk "1.prems" k8' by (simp add: nth_ident GetBit_eq length_unit_row bit_at_unit_row)
    have fc: "find_cand f row a row 255 = Inr row"
      using True g by (subst find_cand.simps) simp
    show ?thesis
    proof (cases "row = 255")
      case True
      with \<open>row < a\<close> fc "1.prems" show ?thesis by (subst Invert_loop.simps) simp
    next
      case False
      have "cancel_loop f out a row 0 = Inr (f, out)"
      proof (rule cancel_loop_noop, intro allI impI)
        fix j assume "j < a" "j \<noteq> row"
        then show "row < 8 * length (f ! j) \<and> \<not> bit_at (f ! j) row"
          using "1.prems" k8' rk by (simp add: nth_ident length_unit_row bit_at_unit_row)
      qed
      then have cl: "cancel_loop (f[row := f ! row, row := f ! row])
                  (out[row := out ! row, row := out ! row]) a row 0 = Inr (f, out)"
        by simp
      have "Invert_loop f out a (row + 1) = Inr (ident k, \<not> (row + 1 \<le> 255 \<and> 255 < k))"
        using "1.IH" [OF True fc False cl refl] "1.prems" True by simp
      moreover have "(row + 1 \<le> 255) = (row \<le> 255)"
        using False by auto
      ultimately have "Invert_loop f out a (row + 1) = Inr (ident k, \<not> (row \<le> 255 \<and> 255 < k))"
        by (simp only:)
      then show ?thesis
        using True fc False cl by (subst Invert_loop.simps) simp
    qed
  qed
qed

lemma Invert_ident:
  assumes "8 dvd k" "0 < k"
  shows "Invert (ident k) = Inr (ident k, k \<le> 255)"
proof -
  have "ident k = unit_row k 0 # map (unit_row k) [1..<k]"
    using assms(2) by (simp add: ident_def upt_conv_Cons)
  then have "Matrix_Size (ident k) = Inr (k, k)"
    using assms by (simp add: Matrix_Size_def Row_Size_def length_unit_row length_ident)
  moreover have "Invert_loop (ident k) (ident k) k 0 = Inr (ident k, \<not> 255 < k)"
    using Invert_loop_ident [OF assms(1), of 0 "ident k" "ident k" k] by simp
  ultimately show ?thesis
    using assms by (auto simp: Invert_def GenerateIdentity_eq)
qed

text \<open>
  C2. The pivot search marks "no row found" with the value 255, which is also a row
  index once the dimension exceeds 255. For a positive multiple of 8 below 256 the
  identity inverts to itself (lemma \<open>Invert_ident\<close>); at dimension 256 the pivot
  of column 255 is found in row 255, taken for "not found", and \<open>Invert\<close> reports the
  identity matrix as singular.
\<close>

theorem Invert_identity_256:
  "GenerateIdentity 256 = Inr (ident 256) \<and> Invert (ident 256) = Inr (ident 256, False)"
  using GenerateIdentity_eq [of 256] Invert_ident [of 256] by simp

section \<open>What inversion writes\<close>


lemma Row_Add_h_frame:
  "L \<le> length h \<Longrightarrow>
   L \<le> length (fst (Row_Add_h h a b)) \<and> take L (fst (Row_Add_h h a b)) = take L h"
  by (simp add: Row_Add_h_def split: sum.splits)

lemma SetBit_h_frame:
  "L \<le> a \<Longrightarrow> L \<le> length h \<Longrightarrow>
   L \<le> length (fst (SetBit_h h a i x)) \<and> take L (fst (SetBit_h h a i x)) = take L h"
  by (simp add: SetBit_h_def split: sum.splits)

lemma Identity_loop_h_frame:
  "(\<forall>j<k. L \<le> out ! j) \<Longrightarrow> L \<le> length h \<Longrightarrow>
   L \<le> length (fst (Identity_loop_h h out k i))
   \<and> take L (fst (Identity_loop_h h out k i)) = take L h"
proof (induction h out k i rule: Identity_loop_h.induct)
  case (1 h out k i)
  show ?case
  proof (cases "i < k")
    case False
    then show ?thesis using "1.prems" by (subst (1 2) Identity_loop_h.simps) simp
  next
    case True
    obtain h' r where s: "SetBit_h h (out ! i) i True = (h', r)" by fastforce
    have fr: "L \<le> length h' \<and> take L h' = take L h"
      using SetBit_h_frame [of L "out ! i" h i True] "1.prems" True s by simp
    show ?thesis
    proof (cases r)
      case (Inl err)
      then show ?thesis using True s fr by (subst (1 2) Identity_loop_h.simps) simp
    next
      case (Inr u)
      have "L \<le> length (fst (Identity_loop_h h' out k (i + 1)))
            \<and> take L (fst (Identity_loop_h h' out k (i + 1))) = take L h'"
        using "1.IH" [OF True s [symmetric] Inr] "1.prems"(1) fr by simp
      then show ?thesis using True s Inr fr by (subst (1 2) Identity_loop_h.simps) simp
    qed
  qed
qed

lemma GenerateIdentity_h_frame:
  "length h \<le> length (fst (GenerateIdentity_h h k))
   \<and> take (length h) (fst (GenerateIdentity_h h k)) = h"
proof -
  let ?h' = "h @ replicate k (replicate (k div 8) 0)"
  let ?out = "[length h..<length h + k]"
  have "\<forall>j<k. length h \<le> ?out ! j" by simp
  from Identity_loop_h_frame [OF this, of ?h' 0]
  show ?thesis by (simp add: GenerateIdentity_h_def GenerateEmpty_h_def)
qed

lemma cancel_loop_h_frame:
  "L \<le> length h \<Longrightarrow>
   L \<le> length (fst (cancel_loop_h h f out a row i))
   \<and> take L (fst (cancel_loop_h h f out a row i)) = take L h"
proof (induction h f out a row i rule: cancel_loop_h.induct)
  case (1 h f out a row i)
  note L = "1.prems"
  show ?case
  proof (cases "i < a")
    case False
    then show ?thesis using L by (subst (1 2) cancel_loop_h.simps) simp
  next
    case True
    show ?thesis
    proof (cases "i = row")
      case True
      with \<open>i < a\<close> "1.IH"(1) L show ?thesis
        by (subst (1 2) cancel_loop_h.simps) simp
    next
      case False
      note ne = False
      show ?thesis
      proof (cases "GetBit (h ! (f ! i)) row")
        case (Inl err)
        with True ne L show ?thesis by (subst (1 2) cancel_loop_h.simps) simp
      next
        case (Inr b)
        note gb = Inr
        show ?thesis
        proof (cases "b = 1")
          case False
          with True ne gb "1.IH"(3) L show ?thesis
            by (subst (1 2) cancel_loop_h.simps) simp
        next
          case b1: True
          obtain h1 r1 where a1: "Row_Add_h h (f ! i) (f ! row) = (h1, r1)" by fastforce
          have f1: "L \<le> length h1 \<and> take L h1 = take L h"
            using Row_Add_h_frame [OF L, of "f ! i" "f ! row"] a1 by simp
          show ?thesis
          proof (cases r1)
            case (Inl err)
            with True ne gb b1 a1 f1 show ?thesis
              by (subst (1 2) cancel_loop_h.simps) simp
          next
            case fi: (Inr fi)
            obtain h2 r2 where a2: "Row_Add_h h1 (out ! i) (out ! row) = (h2, r2)" by fastforce
            have f2: "L \<le> length h2 \<and> take L h2 = take L h"
              using Row_Add_h_frame [of L h1 "out ! i" "out ! row"] a2 f1 by simp
            show ?thesis
            proof (cases r2)
              case (Inl err)
              with True ne gb b1 a1 fi a2 f2 show ?thesis
                by (subst (1 2) cancel_loop_h.simps) simp
            next
              case oi: (Inr oi)
              have "L \<le> length (fst (cancel_loop_h h2 (f[i := fi]) (out[i := oi]) a row (i + 1)))
                  \<and> take L (fst (cancel_loop_h h2 (f[i := fi]) (out[i := oi]) a row (i + 1))) = take L h2"
                using "1.IH"(2) [OF True ne gb b1 a1 [symmetric] fi a2 [symmetric] oi] f2 by simp
              with True ne gb b1 a1 fi a2 oi f2 show ?thesis
                by (subst (1 2) cancel_loop_h.simps) simp
            qed
          qed
        qed
      qed
    qed
  qed
qed

lemma Invert_loop_h_frame:
  "L \<le> length h \<Longrightarrow>
   L \<le> length (fst (Invert_loop_h h f out a row))
   \<and> take L (fst (Invert_loop_h h f out a row)) = take L h"
proof (induction h f out a row rule: Invert_loop_h.induct)
  case (1 h f out a row)
  note L = "1.prems"
  show ?case
  proof (cases "row < a")
    case False
    then show ?thesis using L by (subst (1 2) Invert_loop_h.simps) simp
  next
    case True
    show ?thesis
    proof (cases "find_cand_h h f row a row 255")
      case (Inl err)
      with True L show ?thesis by (subst (1 2) Invert_loop_h.simps) simp
    next
      case (Inr candId)
      note fc = Inr
      show ?thesis
      proof (cases "candId = 255")
        case True
        with \<open>row < a\<close> fc L show ?thesis by (subst (1 2) Invert_loop_h.simps) simp
      next
        case False
        let ?c = "cancel_loop_h h (f[row := f ! candId, candId := f ! row])
                    (out[row := out ! candId, candId := out ! row]) a row 0"
        obtain h' r where c: "?c = (h', r)" by fastforce
        have fr: "L \<le> length h' \<and> take L h' = take L h"
          using cancel_loop_h_frame [OF L, of "f[row := f ! candId, candId := f ! row]"
              "out[row := out ! candId, candId := out ! row]" a row 0] c by simp
        show ?thesis
        proof (cases r)
          case (Inl err)
          with True fc False c fr show ?thesis by (subst (1 2) Invert_loop_h.simps) simp
        next
          case (Inr p)
          obtain f' out' where p: "p = (f', out')" by (cases p)
          have "L \<le> length (fst (Invert_loop_h h' f' out' a (row + 1)))
              \<and> take L (fst (Invert_loop_h h' f' out' a (row + 1))) = take L h'"
            using "1.IH" [OF True fc False c [symmetric] Inr p [symmetric]] fr by simp
          with True fc False c Inr p fr show ?thesis
            by (subst (1 2) Invert_loop_h.simps) simp
        qed
      qed
    qed
  qed
qed

lemma Invert_h_frame:
  "length h \<le> length (fst (Invert_h h e)) \<and> take (length h) (fst (Invert_h h e)) = h"
proof (cases "Matrix_Size_h h e")
  case (Inl err)
  then show ?thesis by (simp add: Invert_h_def)
next
  case (Inr ab)
  obtain a b where ab: "ab = (a, b)" by (cases ab)
  show ?thesis
  proof (cases "a = b")
    case False
    with Inr ab show ?thesis by (simp add: Invert_h_def)
  next
    case True
    obtain h' r where g: "GenerateIdentity_h h a = (h', r)" by fastforce
    have fr: "length h \<le> length h' \<and> take (length h) h' = h"
      using GenerateIdentity_h_frame [of h a] g by simp
    show ?thesis
    proof (cases r)
      case (Inl err)
      with Inr ab True g fr show ?thesis by (simp add: Invert_h_def)
    next
      case out: (Inr out)
      have "length h \<le> length (fst (Invert_loop_h h' e out a 0))
            \<and> take (length h) (fst (Invert_loop_h h' e out a 0)) = take (length h) h'"
        using Invert_loop_h_frame [of "length h" h' e out a 0] fr by simp
      with Inr ab True g out fr show ?thesis by (simp add: Invert_h_def)
    qed
  qed
qed


text \<open>
  C7. Whatever \<open>Invert\<close> answers (an inverse, a failure, a panic), every row that was
  in the store before the call is in it unchanged after the call; in particular the
  rows of the caller's matrix, whose list of addresses \<open>Invert\<close> only copies. (That
  the store model answers what \<open>Invert\<close> answers on the matrix the addresses stand
  for is lemma \<open>Invert_h_refines\<close> below.)
\<close>

theorem Invert_keeps_caller_matrix:
  "take (length h) (fst (Invert_h h e)) = h
   \<and> ((\<forall>a\<in>set e. a < length h) \<longrightarrow> deref (fst (Invert_h h e)) e = deref h e)"
proof -
  let ?h' = "fst (Invert_h h e)"
  have fr: "length h \<le> length ?h'" "take (length h) ?h' = h"
    using Invert_h_frame [of h e] by simp_all
  have "?h' ! a = h ! a" if "a < length h" for a
    using nth_take [OF that, of ?h'] fr(2) by simp
  then show ?thesis using fr(2) by (simp add: deref_def)
qed

theorem Invert_keeps_caller_matrix_witness:
  "length (ident 8) = 8
   \<and> deref (fst (Invert_h (ident 8) [0, 1, 2, 3, 4, 5, 6, 7])) [0, 1, 2, 3, 4, 5, 6, 7]
       = deref (ident 8) [0, 1, 2, 3, 4, 5, 6, 7]"
  using Invert_keeps_caller_matrix [of "ident 8" "[0, 1, 2, 3, 4, 5, 6, 7]"]
  by (simp add: ident_def)

section \<open>The store model computes what the value model computes\<close>

lemma Matrix_Size_h_deref: "Matrix_Size_h h e = Matrix_Size (deref h e)"
  by (cases e) (simp_all add: Matrix_Size_h_def Matrix_Size_def deref_def)

lemma length_deref: "length (deref h e) = length e"
  by (simp add: deref_def)

lemma nth_deref: "i < length e \<Longrightarrow> deref h e ! i = h ! (e ! i)"
  by (simp add: deref_def)

lemma deref_update: "deref h (e[i := a]) = (deref h e)[i := h ! a]"
  by (simp add: deref_def map_update)

lemma deref_append:
  "(\<forall>a\<in>set e. a < length h) \<Longrightarrow> deref (h @ g) e = deref h e"
  by (simp add: deref_def nth_append)

lemma find_cand_h_deref:
  "a \<le> length f \<Longrightarrow> find_cand_h h f row a i c = find_cand (deref h f) row a i c"
proof (induction h f row a i c rule: find_cand_h.induct)
  case (1 h f row a i c)
  show ?case
  proof (cases "i < a")
    case False
    then show ?thesis by (subst find_cand_h.simps, subst find_cand.simps) simp
  next
    case True
    then have n: "deref h f ! i = h ! (f ! i)" using "1.prems" by (simp add: nth_deref)
    show ?thesis
    proof (cases "GetBit (h ! (f ! i)) row")
      case (Inl err)
      with True n show ?thesis by (subst find_cand_h.simps, subst find_cand.simps) simp
    next
      case (Inr b)
      show ?thesis
      proof (cases "b = 1")
        case True
        with \<open>i < a\<close> n Inr show ?thesis
          by (subst find_cand_h.simps, subst find_cand.simps) simp
      next
        case False
        from "1.IH" [OF True Inr False "1.prems"] True n Inr False show ?thesis
          by (subst find_cand_h.simps, subst find_cand.simps) simp
      qed
    qed
  qed
qed

lemma find_cand_range:
  "find_cand f row a i c = Inr r \<Longrightarrow> r = c \<or> r < a"
proof (induction f row a i c rule: find_cand.induct)
  case (1 f row a i c)
  show ?case
  proof (cases "i < a")
    case False
    with "1.prems" show ?thesis by (subst (asm) find_cand.simps) simp
  next
    case True
    show ?thesis
    proof (cases "GetBit (f ! i) row")
      case (Inl err)
      with True "1.prems" show ?thesis by (subst (asm) find_cand.simps) simp
    next
      case (Inr b)
      show ?thesis
      proof (cases "b = 1")
        case True
        with \<open>i < a\<close> Inr "1.prems" show ?thesis by (subst (asm) find_cand.simps) auto
      next
        case False
        with True Inr "1.prems" have "find_cand f row a (i + 1) c = Inr r"
          by (subst (asm) find_cand.simps) simp
        from "1.IH" [OF True Inr False this] show ?thesis .
      qed
    qed
  qed
qed

lemma valid_in_append: "valid_in h e \<Longrightarrow> valid_in (h @ g) e"
  by (auto simp: valid_in_def)

lemma valid_in_update: "valid_in h e \<Longrightarrow> a < length h \<Longrightarrow> valid_in h (e[i := a])"
  by (auto simp: valid_in_def dest!: set_update_subset_insert [THEN subsetD])

lemma valid_in_nth: "valid_in h e \<Longrightarrow> i < length e \<Longrightarrow> e ! i < length h"
  by (simp add: valid_in_def)

lemma deref_append_valid: "valid_in h e \<Longrightarrow> deref (h @ g) e = deref h e"
  by (simp add: valid_in_def deref_append)

lemma cancel_loop_h_deref:
  "valid_in h f \<Longrightarrow> valid_in h out \<Longrightarrow> length f = a \<Longrightarrow> length out = a \<Longrightarrow> row < a \<Longrightarrow>
   (case cancel_loop_h h f out a row i of
      (h', Inl err) \<Rightarrow> cancel_loop (deref h f) (deref h out) a row i = Inl err
    | (h', Inr (f', out')) \<Rightarrow>
        cancel_loop (deref h f) (deref h out) a row i = Inr (deref h' f', deref h' out')
        \<and> valid_in h' f' \<and> valid_in h' out' \<and> length f' = a \<and> length out' = a)"
proof (induction h f out a row i rule: cancel_loop_h.induct)
  case (1 h f out a row i)
  note vf = "1.prems"(1) and vo = "1.prems"(2) and lf = "1.prems"(3) and lo = "1.prems"(4)
    and ra = "1.prems"(5)
  show ?case
  proof (cases "i < a")
    case False
    then show ?thesis using vf vo lf lo
      by (subst cancel_loop_h.simps, subst cancel_loop.simps) simp
  next
    case True
    have ni: "deref h f ! i = h ! (f ! i)" "deref h out ! i = h ! (out ! i)"
      and nr: "deref h f ! row = h ! (f ! row)" "deref h out ! row = h ! (out ! row)"
      using True ra lf lo by (simp_all add: nth_deref)
    show ?thesis
    proof (cases "i = row")
      case True
      with \<open>i < a\<close> "1.IH"(1) [OF \<open>i < a\<close> True "1.prems"] show ?thesis
        by (subst cancel_loop_h.simps, subst (1 2) cancel_loop.simps) simp
    next
      case False
      note ne = False
      show ?thesis
      proof (cases "GetBit (h ! (f ! i)) row")
        case (Inl err)
        with True ne ni show ?thesis
          by (subst cancel_loop_h.simps, subst cancel_loop.simps) simp
      next
        case (Inr b)
        note gb = Inr
        show ?thesis
        proof (cases "b = 1")
          case False
          with True ne gb ni "1.IH"(3) [OF True ne gb False "1.prems"] show ?thesis
            by (subst cancel_loop_h.simps, subst (1 2) cancel_loop.simps) simp
        next
          case b1: True
          show ?thesis
          proof (cases "Row_Add (h ! (f ! i)) (h ! (f ! row))")
            case (Inl err)
            with True ne gb b1 ni nr show ?thesis
              by (subst cancel_loop_h.simps, subst cancel_loop.simps) (simp add: Row_Add_h_def)
          next
            case fi: (Inr r)
            let ?h1 = "h @ [r]"
            have a1: "Row_Add_h h (f ! i) (f ! row) = (?h1, Inr (length h))"
              using fi by (simp add: Row_Add_h_def)
            have oh1: "?h1 ! (out ! i) = h ! (out ! i)" "?h1 ! (out ! row) = h ! (out ! row)"
              using valid_in_nth [OF vo] True ra lo by (simp_all add: nth_append)
            show ?thesis
            proof (cases "Row_Add (h ! (out ! i)) (h ! (out ! row))")
              case (Inl err)
              then have "Row_Add_h ?h1 (out ! i) (out ! row) = (?h1, Inl err)"
                using oh1 by (simp add: Row_Add_h_def)
              with True ne gb b1 ni nr fi a1 Inl show ?thesis
                by (subst cancel_loop_h.simps, subst cancel_loop.simps) simp
            next
              case oi: (Inr r2)
              let ?h2 = "?h1 @ [r2]"
              have a2: "Row_Add_h ?h1 (out ! i) (out ! row) = (?h2, Inr (length ?h1))"
                using oi oh1 by (simp add: Row_Add_h_def)
              let ?f1 = "f[i := length h]" and ?o1 = "out[i := length ?h1]"
              have vf1: "valid_in ?h2 ?f1"
                by (rule valid_in_update) (use vf in \<open>auto simp: valid_in_def\<close>)
              have vo1: "valid_in ?h2 ?o1"
                by (rule valid_in_update) (use vo in \<open>auto simp: valid_in_def\<close>)
              have df: "deref ?h2 ?f1 = (deref h f)[i := r]"
              proof -
                have "deref ?h2 f = deref h f"
                  using deref_append_valid [OF vf, of "[r, r2]"] by simp
                then show ?thesis by (simp add: deref_update nth_append)
              qed
              have do: "deref ?h2 ?o1 = (deref h out)[i := r2]"
              proof -
                have "deref ?h2 out = deref h out"
                  using deref_append_valid [OF vo, of "[r, r2]"] by simp
                then show ?thesis by (simp add: deref_update nth_append)
              qed
              have ih: "case cancel_loop_h ?h2 ?f1 ?o1 a row (i + 1) of
                  (h', Inl err) \<Rightarrow>
                    cancel_loop (deref ?h2 ?f1) (deref ?h2 ?o1) a row (i + 1) = Inl err
                | (h', Inr (f', out')) \<Rightarrow>
                    cancel_loop (deref ?h2 ?f1) (deref ?h2 ?o1) a row (i + 1)
                      = Inr (deref h' f', deref h' out')
                    \<and> valid_in h' f' \<and> valid_in h' out' \<and> length f' = a \<and> length out' = a"
                by (rule "1.IH"(2) [OF True ne gb b1 a1 [symmetric] refl a2 [symmetric] refl
                      vf1 vo1 _ _ ra]) (use lf lo in simp_all)
              have lhs: "cancel_loop_h h f out a row i = cancel_loop_h ?h2 ?f1 ?o1 a row (i + 1)"
                using True ne gb b1 a1 a2 by (subst cancel_loop_h.simps) simp
              have rhs: "cancel_loop (deref h f) (deref h out) a row i
                  = cancel_loop (deref ?h2 ?f1) (deref ?h2 ?o1) a row (i + 1)"
                using True ne gb b1 ni nr fi oi df do by (subst cancel_loop.simps) simp
              show ?thesis unfolding lhs rhs by (rule ih)
            qed
          qed
        qed
      qed
    qed
  qed
qed

lemma deref_store_update:
  assumes "distinct e" "i < length e"
  shows "deref (h[e ! i := r]) e = (deref h e)[i := (h[e ! i := r]) ! (e ! i)]"
proof (rule nth_equalityI)
  show "length (deref (h[e ! i := r]) e) = length ((deref h e)[i := (h[e ! i := r]) ! (e ! i)])"
    by (simp add: length_deref)
next
  fix j assume "j < length (deref (h[e ! i := r]) e)"
  then have j: "j < length e" by (simp add: length_deref)
  have "(e ! j = e ! i) = (j = i)"
    using assms j by (simp add: nth_eq_iff_index_eq)
  then show "deref (h[e ! i := r]) e ! j = (deref h e)[i := (h[e ! i := r]) ! (e ! i)] ! j"
    using j assms(2) by (auto simp: nth_deref length_deref nth_list_update)
qed

lemma Identity_loop_h_deref:
  "distinct out \<Longrightarrow> valid_in h out \<Longrightarrow> length out = k \<Longrightarrow>
   (case Identity_loop_h h out k i of
      (h', Inl err) \<Rightarrow> Identity_loop (deref h out) k i = Inl err
    | (h', Inr out') \<Rightarrow>
        Identity_loop (deref h out) k i = Inr (deref h' out')
        \<and> valid_in h' out' \<and> length out' = k)"
proof (induction h out k i rule: Identity_loop_h.induct)
  case (1 h out k i)
  note d = "1.prems"(1) and v = "1.prems"(2) and l = "1.prems"(3)
  show ?case
  proof (cases "i < k")
    case False
    then show ?thesis using v l by (subst Identity_loop_h.simps, subst Identity_loop.simps) simp
  next
    case True
    have n: "deref h out ! i = h ! (out ! i)" using True l by (simp add: nth_deref)
    have oi: "out ! i < length h" using valid_in_nth [OF v] True l by simp
    show ?thesis
    proof (cases "SetBit (h ! (out ! i)) i True")
      case (Inl err)
      with True n show ?thesis
        by (subst Identity_loop_h.simps, subst Identity_loop.simps) (simp add: SetBit_h_def)
    next
      case (Inr r)
      let ?h1 = "h[out ! i := r]"
      have s: "SetBit_h h (out ! i) i True = (?h1, Inr ())"
        using Inr by (simp add: SetBit_h_def)
      have v1: "valid_in ?h1 out" using v by (simp add: valid_in_def)
      have df: "deref ?h1 out = (deref h out)[i := r]"
        using deref_store_update [OF d, of i h r] True l oi by simp
      have ih: "case Identity_loop_h ?h1 out k (i + 1) of
          (h', Inl err) \<Rightarrow> Identity_loop (deref ?h1 out) k (i + 1) = Inl err
        | (h', Inr out') \<Rightarrow>
            Identity_loop (deref ?h1 out) k (i + 1) = Inr (deref h' out')
            \<and> valid_in h' out' \<and> length out' = k"
        by (rule "1.IH" [OF True s [symmetric] refl d v1 l])
      have lhs: "Identity_loop_h h out k i = Identity_loop_h ?h1 out k (i + 1)"
        using True s by (subst Identity_loop_h.simps) simp
      have rhs: "Identity_loop (deref h out) k i = Identity_loop (deref ?h1 out) k (i + 1)"
        using True n Inr df by (subst Identity_loop.simps) simp
      show ?thesis unfolding lhs rhs by (rule ih)
    qed
  qed
qed

lemma GenerateIdentity_h_deref:
  "case GenerateIdentity_h h k of
      (h', Inl err) \<Rightarrow> GenerateIdentity k = Inl err
    | (h', Inr out) \<Rightarrow>
        GenerateIdentity k = Inr (deref h' out) \<and> valid_in h' out \<and> length out = k"
proof -
  let ?h0 = "h @ replicate k (replicate (k div 8) 0)"
  let ?out = "[length h..<length h + k]"
  have "deref ?h0 ?out = GenerateEmpty k"
    by (rule nth_equalityI) (simp_all add: deref_def GenerateEmpty_def nth_append)
  moreover have "distinct ?out" "valid_in ?h0 ?out" "length ?out = k"
    by (simp_all add: valid_in_def)
  ultimately show ?thesis
    using Identity_loop_h_deref [of ?out ?h0 k 0]
    by (simp add: GenerateIdentity_h_def GenerateEmpty_h_def GenerateIdentity_def)
qed

lemma Invert_loop_h_deref:
  "valid_in h f \<Longrightarrow> valid_in h out \<Longrightarrow> length f = a \<Longrightarrow> length out = a \<Longrightarrow>
   (case Invert_loop_h h f out a row of
      (h', Inl err) \<Rightarrow> Invert_loop (deref h f) (deref h out) a row = Inl err
    | (h', Inr (out', ok)) \<Rightarrow>
        Invert_loop (deref h f) (deref h out) a row = Inr (deref h' out', ok))"
proof (induction h f out a row rule: Invert_loop_h.induct)
  case (1 h f out a row)
  note vf = "1.prems"(1) and vo = "1.prems"(2) and lf = "1.prems"(3) and lo = "1.prems"(4)
  show ?case
  proof (cases "row < a")
    case False
    then show ?thesis by (subst Invert_loop_h.simps, subst Invert_loop.simps) simp
  next
    case True
    have fc: "find_cand_h h f row a row 255 = find_cand (deref h f) row a row 255"
      by (rule find_cand_h_deref) (use lf in simp)
    show ?thesis
    proof (cases "find_cand (deref h f) row a row 255")
      case (Inl err)
      with True fc show ?thesis by (subst Invert_loop_h.simps, subst Invert_loop.simps) simp
    next
      case (Inr c)
      note c = Inr
      show ?thesis
      proof (cases "c = 255")
        case True
        with \<open>row < a\<close> fc c show ?thesis
          by (subst Invert_loop_h.simps, subst Invert_loop.simps) simp
      next
        case False
        have ca: "c < a" using find_cand_range [OF c] False by simp
        have fch: "find_cand_h h f row a row 255 = Inr c" using fc c by simp
        let ?f1 = "f[row := f ! c, c := f ! row]" and ?o1 = "out[row := out ! c, c := out ! row]"
        have vf1: "valid_in h ?f1"
          using vf valid_in_nth [OF vf] True ca lf by (simp add: valid_in_update)
        have vo1: "valid_in h ?o1"
          using vo valid_in_nth [OF vo] True ca lo by (simp add: valid_in_update)
        have df: "deref h ?f1 = (deref h f)[row := deref h f ! c, c := deref h f ! row]"
          using True ca lf by (simp add: deref_update nth_deref)
        have do: "deref h ?o1 = (deref h out)[row := deref h out ! c, c := deref h out ! row]"
          using True ca lo by (simp add: deref_update nth_deref)
        obtain h' r where cl: "cancel_loop_h h ?f1 ?o1 a row 0 = (h', r)" by fastforce
        have sim: "case cancel_loop_h h ?f1 ?o1 a row 0 of
            (h', Inl err) \<Rightarrow> cancel_loop (deref h ?f1) (deref h ?o1) a row 0 = Inl err
          | (h', Inr (f', out')) \<Rightarrow>
              cancel_loop (deref h ?f1) (deref h ?o1) a row 0 = Inr (deref h' f', deref h' out')
              \<and> valid_in h' f' \<and> valid_in h' out' \<and> length f' = a \<and> length out' = a"
          by (rule cancel_loop_h_deref [OF vf1 vo1 _ _ True]) (use lf lo in simp_all)
        show ?thesis
        proof (cases r)
          case (Inl err)
          with sim cl have "cancel_loop (deref h ?f1) (deref h ?o1) a row 0 = Inl err" by simp
          with True fc c False cl Inl df do show ?thesis
            by (subst Invert_loop_h.simps, subst Invert_loop.simps) simp
        next
          case (Inr p)
          obtain f' out' where p: "p = (f', out')" by (cases p)
          from sim cl Inr p have s: "cancel_loop (deref h ?f1) (deref h ?o1) a row 0
              = Inr (deref h' f', deref h' out')"
            "valid_in h' f'" "valid_in h' out'" "length f' = a" "length out' = a"
            by simp_all
          have ih: "case Invert_loop_h h' f' out' a (row + 1) of
              (h'', Inl err) \<Rightarrow> Invert_loop (deref h' f') (deref h' out') a (row + 1) = Inl err
            | (h'', Inr (out'', ok)) \<Rightarrow>
                Invert_loop (deref h' f') (deref h' out') a (row + 1) = Inr (deref h'' out'', ok)"
            by (rule "1.IH" [OF True fch False cl [symmetric] Inr p [symmetric] s(2,3,4,5)])
          have lhs: "Invert_loop_h h f out a row = Invert_loop_h h' f' out' a (row + 1)"
            using True fc c False cl Inr p by (subst Invert_loop_h.simps) simp
          have rhs: "Invert_loop (deref h f) (deref h out) a row
              = Invert_loop (deref h' f') (deref h' out') a (row + 1)"
            using True c False s(1) df do by (subst Invert_loop.simps) simp
          show ?thesis unfolding lhs rhs by (rule ih)
        qed
      qed
    qed
  qed
qed

lemma Invert_h_refines:
  assumes "valid_in h e"
  shows "case Invert_h h e of
      (h', Inl err) \<Rightarrow> Invert (deref h e) = Inl err
    | (h', Inr (out, ok)) \<Rightarrow> Invert (deref h e) = Inr (deref h' out, ok)"
proof (cases "Matrix_Size (deref h e)")
  case (Inl err)
  then show ?thesis by (simp add: Invert_h_def Invert_def Matrix_Size_h_deref)
next
  case (Inr ab)
  obtain a b where ab: "ab = (a, b)" by (cases ab)
  have la: "length e = a"
    using Inr ab by (cases e) (auto simp: Matrix_Size_def deref_def)
  show ?thesis
  proof (cases "a = b")
    case False
    with Inr ab show ?thesis by (simp add: Invert_h_def Invert_def Matrix_Size_h_deref)
  next
    case True
    obtain h1 r where g: "GenerateIdentity_h h a = (h1, r)" by fastforce
    have fr: "length h \<le> length h1 \<and> take (length h) h1 = h"
      using GenerateIdentity_h_frame [of h a] g by simp
    show ?thesis
    proof (cases r)
      case (Inl err)
      with GenerateIdentity_h_deref [where h = h and k = a] g have "GenerateIdentity a = Inl err" by simp
      with Inr ab True g Inl show ?thesis
        by (simp add: Invert_h_def Invert_def Matrix_Size_h_deref)
    next
      case out: (Inr out)
      with GenerateIdentity_h_deref [where h = h and k = a] g
      have gi: "GenerateIdentity a = Inr (deref h1 out)" "valid_in h1 out" "length out = a"
        by simp_all
      have ve: "valid_in h1 e" using assms fr by (auto simp: valid_in_def)
      have de: "deref h1 e = deref h e"
      proof -
        have "h1 ! x = h ! x" if "x < length h" for x
          using nth_take [OF that, of h1] fr by simp
        then show ?thesis using assms by (simp add: deref_def valid_in_def)
      qed
      have lhs: "Invert_h h e = Invert_loop_h h1 e out a 0"
        using Inr ab True g out by (simp add: Invert_h_def Matrix_Size_h_deref)
      have rhs: "Invert (deref h e) = Invert_loop (deref h1 e) (deref h1 out) a 0"
        using Inr ab True gi(1) de by (simp add: Invert_def)
      show ?thesis
        unfolding lhs rhs by (rule Invert_loop_h_deref [OF ve gi(2) la gi(3)])
    qed
  qed
qed

section \<open>Random generation returns invertible matrices\<close>

lemma length_read_row: "length (fst (read_row rd r k)) = k"
  by (auto simp: read_row_def split: prod.splits)

lemma draw_loop_shape:
  "length m = k \<Longrightarrow> (\<forall>j<i. length (m ! j) = k div 8) \<Longrightarrow>
   length (fst (draw_loop rd r k i m)) = k
   \<and> (\<forall>j<k. length (fst (draw_loop rd r k i m) ! j) = k div 8)"
proof (induction rd r k i m rule: draw_loop.induct)
  case (1 rd r k i m)
  show ?case
  proof (cases "i < k")
    case False
    with "1.prems" show ?thesis by (subst (1 2) draw_loop.simps) simp
  next
    case True
    obtain row r' where rr: "read_row rd r (k div 8) = (row, r')" by fastforce
    have lr: "length row = k div 8" using length_read_row [of rd r "k div 8"] rr by simp
    have "length (fst (draw_loop rd r' k (i + 1) (m[i := row]))) = k
      \<and> (\<forall>j<k. length (fst (draw_loop rd r' k (i + 1) (m[i := row])) ! j) = k div 8)"
    proof (rule "1.IH" [OF True rr [symmetric] refl])
      show "\<forall>j<i + 1. length (m[i := row] ! j) = k div 8"
        using "1.prems" True lr by (auto simp: nth_list_update less_Suc_eq)
    qed (use "1.prems" in simp)
    with True rr show ?thesis by (subst (1 2) draw_loop.simps) simp
  qed
qed


lemma GenerateRandom_sound:
  assumes g: "GenerateRandom rd r k = Some y"
  shows "\<forall>m r'. y = Inr (m, r') \<longrightarrow>
      length m = k \<and> (\<forall>j<k. length (m ! j) = k div 8) \<and> (\<exists>N. Invert m = Inr (N, True))"
proof (rule GenerateRandom.raw_induct
    [where P = "\<lambda>rd r k y. \<forall>m r'. y = Inr (m, r') \<longrightarrow>
      length m = k \<and> (\<forall>j<k. length (m ! j) = k div 8) \<and> (\<exists>N. Invert m = Inr (N, True))",
     OF _ g])
  fix G :: "('a \<Rightarrow> nat \<Rightarrow> byte list \<times> 'a) \<Rightarrow> 'a \<Rightarrow> nat \<Rightarrow> (error + (Matrix \<times> 'a)) option"
  fix rd r k y
  assume IH: "\<And>rd r k y. G rd r k = Some y \<Longrightarrow> \<forall>m r'. y = Inr (m, r') \<longrightarrow>
      length m = k \<and> (\<forall>j<k. length (m ! j) = k div 8) \<and> (\<exists>N. Invert m = Inr (N, True))"
  assume body: "(case draw_loop rd r k 0 (replicate k []) of
      (m, r') \<Rightarrow>
        case Invert m of Inl err \<Rightarrow> Some (Inl err)
        | Inr (x, ok) \<Rightarrow>
            if ok then Some (Inr (m, r')) else G rd r' k) = Some y"
  obtain m0 r0 where d: "draw_loop rd r k 0 (replicate k []) = (m0, r0)" by fastforce
  have shape: "length m0 = k \<and> (\<forall>j<k. length (m0 ! j) = k div 8)"
    using draw_loop_shape [of "replicate k []" k 0 rd r] d by simp
  show "\<forall>m r'. y = Inr (m, r') \<longrightarrow>
      length m = k \<and> (\<forall>j<k. length (m ! j) = k div 8) \<and> (\<exists>N. Invert m = Inr (N, True))"
  proof (cases "Invert m0")
    case (Inl err)
    with body d show ?thesis by auto
  next
    case (Inr p)
    obtain N ok where p: "p = (N, ok)" by (cases p)
    show ?thesis
    proof (cases ok)
      case True
      with body d Inr p shape show ?thesis by auto
    next
      case False
      with body d Inr p have "G rd r0 k = Some y" by simp
      from IH [OF this] show ?thesis .
    qed
  qed
qed

text \<open>
  C5. A matrix that \<open>GenerateRandom\<close> returns has \<open>k\<close> rows of \<open>k div 8\<close> bytes
  each and \<open>Invert\<close> succeeds on it; when the matrix drawn first is reported singular,
  the call is the same call on the reader as the draw left it, so a whole new matrix
  is drawn.
\<close>

theorem GenerateRandom_returns_invertible:
  "(GenerateRandom rd r k = Some (Inr (m, r')) \<longrightarrow>
      length m = k \<and> (\<forall>row\<in>set m. length row = k div 8) \<and> (\<exists>N. Invert m = Inr (N, True)))
   \<and> (draw_loop rd r k 0 (replicate k []) = (m0, r0) \<and> Invert m0 = Inr (N0, False) \<longrightarrow>
      GenerateRandom rd r k = GenerateRandom rd r0 k)"
proof (intro conjI impI)
  assume g: "GenerateRandom rd r k = Some (Inr (m, r'))"
  from GenerateRandom_sound [OF g]
  have s: "length m = k" "\<forall>j<k. length (m ! j) = k div 8" "\<exists>N. Invert m = Inr (N, True)"
    by simp_all
  show "length m = k" by (rule s(1))
  show "\<forall>row\<in>set m. length row = k div 8"
    using s(1,2) by (auto simp: in_set_conv_nth)
  show "\<exists>N. Invert m = Inr (N, True)" by (rule s(3))
next
  assume "draw_loop rd r k 0 (replicate k []) = (m0, r0) \<and> Invert m0 = Inr (N0, False)"
  then show "GenerateRandom rd r k = GenerateRandom rd r0 k"
    by (subst GenerateRandom.simps) simp
qed

theorem GenerateRandom_returns_invertible_witness:
  "GenerateRandom buf_read (replicate 8 0 @ [1, 2, 4, 8, 16, 32, 64, 128]) 8
     = Some (Inr ([[1], [2], [4], [8], [16], [32], [64], [128]], []))
   \<and> Invert [[1], [2], [4], [8], [16], [32], [64], [128]]
     = Inr ([[1], [2], [4], [8], [16], [32], [64], [128]], True)
   \<and> draw_loop buf_read (replicate 8 0 @ [1, 2, 4, 8, 16, 32, 64, 128]) 8 0 (replicate 8 [])
     = (replicate 8 [0], [1, 2, 4, 8, 16, 32, 64, 128])
   \<and> Invert (replicate 8 [0]) = Inr ([[1], [2], [4], [8], [16], [32], [64], [128]], False)
   \<and> GenerateRandom buf_read (replicate 8 0 @ [1, 2, 4, 8, 16, 32, 64, 128]) 8
     = GenerateRandom buf_read [1, 2, 4, 8, 16, 32, 64, 128] 8"
proof -
  let ?I = "[[1], [2], [4], [8], [16], [32], [64], [128]] :: Matrix"
  let ?b = "[1, 2, 4, 8, 16, 32, 64, 128] :: byte list"
  have d1: "draw_loop buf_read (replicate 8 0 @ ?b) 8 0 (replicate 8 []) = (replicate 8 [0], ?b)"
    by code_simp
  have i1: "Invert (replicate 8 [0]) = Inr (?I, False)"
    by code_simp
  have d2: "draw_loop buf_read ?b 8 0 (replicate 8 []) = (?I, [])"
    by code_simp
  have i2: "Invert ?I = Inr (?I, True)"
    by code_simp
  have g2: "GenerateRandom buf_read ?b 8 = Some (Inr (?I, []))"
    by (subst GenerateRandom.simps) (simp add: d2 i2)
  have g1: "GenerateRandom buf_read (replicate 8 0 @ ?b) 8 = GenerateRandom buf_read ?b 8"
    using GenerateRandom_returns_invertible
      [of buf_read "replicate 8 0 @ ?b" 8 ?I "[]" "replicate 8 [0]" ?b ?I] d1 i1
    by simp
  show ?thesis using g1 g2 d1 i1 i2 by simp
qed


section \<open>The loops of inversion on well-formed matrices\<close>

lemma wf_mat_nth: "wf_mat k e \<Longrightarrow> i < k \<Longrightarrow> length (e ! i) = k div 8"
  by (simp add: wf_mat_def)

lemma wf_mat_len8: "wf_mat k e \<Longrightarrow> 8 * (k div 8) = k"
  by (simp add: wf_mat_def)

lemma wf_mat_bits: "wf_mat k e \<Longrightarrow> i < k \<Longrightarrow> 8 * length (e ! i) = k"
  by (simp add: wf_mat_def)

lemma length_row_of_bits: "length (row_of_bits k P) = k div 8"
  by (simp add: row_of_bits_def)

lemma bit_at_row_of_bits:
  assumes "i < 8 * (k div 8)"
  shows "bit_at (row_of_bits k P) i = P i"
proof -
  have d: "i div 8 < k div 8" using assms by (simp add: div8_less)
  have m: "i mod 8 < 8" by simp
  have "bit_at (row_of_bits k P) i
      = bit (horner_sum of_bool 2 (map (\<lambda>b. P (8 * (i div 8) + b)) [0..<8]) :: byte) (i mod 8)"
    using d by (simp add: bit_at_def row_of_bits_def)
  also have "\<dots> = P (8 * (i div 8) + i mod 8)"
    using m by (simp add: bit_horner_sum_bit_word_iff del: upt.simps)
  finally show ?thesis by simp
qed

lemma find_cand_eq:
  "(\<forall>j<a. row < 8 * length (f ! j)) \<Longrightarrow>
   find_cand f row a i c =
     Inr (case List.find (\<lambda>j. bit_at (f ! j) row) [i..<a] of None \<Rightarrow> c | Some j \<Rightarrow> j)"
proof (induction f row a i c rule: find_cand.induct)
  case (1 f row a i c)
  show ?case
  proof (cases "i < a")
    case False
    then show ?thesis by (subst find_cand.simps) simp
  next
    case True
    have g: "GetBit (f ! i) row = Inr (of_bool (bit_at (f ! i) row))"
      using "1.prems" True by (simp add: GetBit_eq)
    have u: "[i..<a] = i # [i + 1..<a]" using True by (simp add: upt_conv_Cons)
    show ?thesis
    proof (cases "bit_at (f ! i) row")
      case True
      with \<open>i < a\<close> g u show ?thesis by (subst find_cand.simps) simp
    next
      case False
      with True g have "find_cand f row a (i + 1) c =
          Inr (case List.find (\<lambda>j. bit_at (f ! j) row) [i + 1..<a] of None \<Rightarrow> c | Some j \<Rightarrow> j)"
        using "1.IH" [of "of_bool (bit_at (f ! i) row)"] "1.prems" by simp
      with True False g u show ?thesis by (subst find_cand.simps) simp
    qed
  qed
qed

lemma cancel_loop_eq:
  "8 * m = k \<Longrightarrow> length f = k \<Longrightarrow> length out = k \<Longrightarrow> row < k \<Longrightarrow>
   (\<forall>j<k. length (f ! j) = m) \<Longrightarrow> (\<forall>j<k. length (out ! j) = m) \<Longrightarrow>
   cancel_loop f out k row i =
     Inr (map (\<lambda>j. if i \<le> j \<and> j \<noteq> row \<and> bit_at (f ! j) row
                    then xor_rows (f ! j) (f ! row) else f ! j) [0..<k],
          map (\<lambda>j. if i \<le> j \<and> j \<noteq> row \<and> bit_at (f ! j) row
                    then xor_rows (out ! j) (out ! row) else out ! j) [0..<k])"
proof (induction f out k row i rule: cancel_loop.induct)
  case (1 f out a row i)
  note k8 = "1.prems"(1)
  note P = "1.prems"(2-)
  show ?case
  proof (cases "i < a")
    case False
    have "map (\<lambda>j. if i \<le> j \<and> j \<noteq> row \<and> bit_at (f ! j) row
                    then xor_rows (f ! j) (f ! row) else f ! j) [0..<a] = f"
      using False P(1) by (intro nth_equalityI) auto
    moreover have "map (\<lambda>j. if i \<le> j \<and> j \<noteq> row \<and> bit_at (f ! j) row
                    then xor_rows (out ! j) (out ! row) else out ! j) [0..<a] = out"
      using False P(2) by (intro nth_equalityI) auto
    ultimately show ?thesis using False by (subst cancel_loop.simps) simp
  next
    case True
    show ?thesis
    proof (cases "i = row")
      case True
      have "cancel_loop f out a row (i + 1) =
        Inr (map (\<lambda>j. if i + 1 \<le> j \<and> j \<noteq> row \<and> bit_at (f ! j) row
                    then xor_rows (f ! j) (f ! row) else f ! j) [0..<a],
          map (\<lambda>j. if i + 1 \<le> j \<and> j \<noteq> row \<and> bit_at (f ! j) row
                    then xor_rows (out ! j) (out ! row) else out ! j) [0..<a])"
        using "1.IH"(1) [OF \<open>i < a\<close> True "1.prems"] .
      moreover have "\<And>j. (i + 1 \<le> j \<and> j \<noteq> row) = (i \<le> j \<and> j \<noteq> row)"
        using True by auto
      ultimately show ?thesis using \<open>i < a\<close> True by (subst cancel_loop.simps) simp
    next
      case False
      have g: "GetBit (f ! i) row = Inr (of_bool (bit_at (f ! i) row))"
        using P True k8 by (simp add: GetBit_eq)
      show ?thesis
      proof (cases "bit_at (f ! i) row")
        case nb: False
        have b0: "of_bool (bit_at (f ! i) row) \<noteq> (1 :: byte)" using nb by simp
        have "cancel_loop f out a row (i + 1) =
          Inr (map (\<lambda>j. if i + 1 \<le> j \<and> j \<noteq> row \<and> bit_at (f ! j) row
                      then xor_rows (f ! j) (f ! row) else f ! j) [0..<a],
            map (\<lambda>j. if i + 1 \<le> j \<and> j \<noteq> row \<and> bit_at (f ! j) row
                      then xor_rows (out ! j) (out ! row) else out ! j) [0..<a])"
          using "1.IH"(3) [OF True False g b0 "1.prems"] .
        moreover have "\<And>j. (i + 1 \<le> j \<and> j \<noteq> row \<and> bit_at (f ! j) row)
             = (i \<le> j \<and> j \<noteq> row \<and> bit_at (f ! j) row)"
          using nb by (metis Suc_eq_plus1 Suc_leI le_neq_implies_less add_leD1)
        ultimately show ?thesis using True False g nb by (subst cancel_loop.simps) simp
      next
        case b: True
        have b1: "of_bool (bit_at (f ! i) row) = (1 :: byte)" using b by simp
        let ?fi = "xor_rows (f ! i) (f ! row)"
        let ?oi = "xor_rows (out ! i) (out ! row)"
        have af: "Row_Add (f ! i) (f ! row) = Inr ?fi"
          using P True by (simp add: Row_Add_xor)
        have ao: "Row_Add (out ! i) (out ! row) = Inr ?oi"
          using P True by (simp add: Row_Add_xor)
        have lf: "\<forall>j<a. length (f[i := ?fi] ! j) = m"
          using P True by (auto simp: nth_list_update length_xor_rows)
        have lo: "\<forall>j<a. length (out[i := ?oi] ! j) = m"
          using P True by (auto simp: nth_list_update length_xor_rows)
        have rec: "cancel_loop (f[i := ?fi]) (out[i := ?oi]) a row (i + 1) =
          Inr (map (\<lambda>j. if i + 1 \<le> j \<and> j \<noteq> row \<and> bit_at (f[i := ?fi] ! j) row
                      then xor_rows (f[i := ?fi] ! j) (f[i := ?fi] ! row) else f[i := ?fi] ! j) [0..<a],
            map (\<lambda>j. if i + 1 \<le> j \<and> j \<noteq> row \<and> bit_at (f[i := ?fi] ! j) row
                      then xor_rows (out[i := ?oi] ! j) (out[i := ?oi] ! row) else out[i := ?oi] ! j) [0..<a])"
          using "1.IH"(2) [OF True False g b1 af ao k8 _ _ P(3) lf lo] P by simp
        have e1: "map (\<lambda>j. if i + 1 \<le> j \<and> j \<noteq> row \<and> bit_at (f[i := ?fi] ! j) row
                      then xor_rows (f[i := ?fi] ! j) (f[i := ?fi] ! row) else f[i := ?fi] ! j) [0..<a]
            = map (\<lambda>j. if i \<le> j \<and> j \<noteq> row \<and> bit_at (f ! j) row
                    then xor_rows (f ! j) (f ! row) else f ! j) [0..<a]"
          using P True False b by (intro nth_equalityI) (auto simp: nth_list_update)
        have e2: "map (\<lambda>j. if i + 1 \<le> j \<and> j \<noteq> row \<and> bit_at (f[i := ?fi] ! j) row
                      then xor_rows (out[i := ?oi] ! j) (out[i := ?oi] ! row) else out[i := ?oi] ! j) [0..<a]
            = map (\<lambda>j. if i \<le> j \<and> j \<noteq> row \<and> bit_at (f ! j) row
                    then xor_rows (out ! j) (out ! row) else out ! j) [0..<a]"
          using P True False b by (intro nth_equalityI) (auto simp: nth_list_update)
        show ?thesis
          using True False g b1 af ao rec e1 e2 by (subst cancel_loop.simps) simp
      qed
    qed
  qed
qed


section \<open>Multiplication by a well-formed matrix\<close>

lemma Mul_loop_bits:
  "out = 8 * length res \<Longrightarrow> (\<forall>j<out. length (e ! j) = length v) \<Longrightarrow>
   \<exists>w. Mul_loop e v out i res = Inr w \<and> length w = length res
     \<and> (\<forall>j<out. bit_at w j = (bit_at res j \<or> (i \<le> j \<and> dotb (e ! j) v)))"
proof (induction e v out i res rule: Mul_loop.induct)
  case (1 e v out i res)
  note P = "1.prems"
  show ?case
  proof (cases "i < out")
    case False
    then show ?thesis by (subst Mul_loop.simps) auto
  next
    case True
    have dp: "DotProduct (e ! i) v = Inr (dotb (e ! i) v)"
      using P True by (simp add: DotProduct_dotb)
    show ?thesis
    proof (cases "dotb (e ! i) v")
      case False
      from "1.IH"(2) [OF True dp False P]
      obtain w where w: "Mul_loop e v out (i + 1) res = Inr w" "length w = length res"
        "\<forall>j<out. bit_at w j = (bit_at res j \<or> (i + 1 \<le> j \<and> dotb (e ! j) v))"
        by blast
      have "\<forall>j<out. bit_at w j = (bit_at res j \<or> (i \<le> j \<and> dotb (e ! j) v))"
      proof (intro allI impI)
        fix j assume "j < out"
        have "(i + 1 \<le> j \<and> dotb (e ! j) v) = (i \<le> j \<and> dotb (e ! j) v)"
          using False by (cases "j = i") auto
        with w(3) \<open>j < out\<close> show "bit_at w j = (bit_at res j \<or> (i \<le> j \<and> dotb (e ! j) v))"
          by simp
      qed
      with w(1,2) True dp False show ?thesis by (subst Mul_loop.simps) simp
    next
      case d: True
      have "i < 8 * length res" using True P by simp
      from SetBit_True [OF this]
      obtain res' where r: "SetBit res i True = Inr res'" "length res' = length res"
        "\<forall>j<8 * length res. bit_at res' j = (j = i \<or> bit_at res j)"
        by blast
      have "out = 8 * length res'" using P r(2) by simp
      from "1.IH"(1) [OF True dp d r(1) this P(2)]
      obtain w where w: "Mul_loop e v out (i + 1) res' = Inr w" "length w = length res'"
        "\<forall>j<out. bit_at w j = (bit_at res' j \<or> (i + 1 \<le> j \<and> dotb (e ! j) v))"
        by blast
      have "\<forall>j<out. bit_at w j = (bit_at res j \<or> (i \<le> j \<and> dotb (e ! j) v))"
      proof (intro allI impI)
        fix j assume j: "j < out"
        have "bit_at w j = ((j = i \<or> bit_at res j) \<or> (i + 1 \<le> j \<and> dotb (e ! j) v))"
          using w(3) r(3) j P(1) by simp
        also have "\<dots> = (bit_at res j \<or> (i \<le> j \<and> dotb (e ! j) v))"
          using d by (cases "j = i") auto
        finally show "bit_at w j = (bit_at res j \<or> (i \<le> j \<and> dotb (e ! j) v))" .
      qed
      with w(1,2) r(1,2) True dp d show ?thesis by (subst Mul_loop.simps) simp
    qed
  qed
qed

lemma length_mulv: "length (mulv e v) = length e div 8"
  by (simp add: mulv_def length_row_of_bits)

lemma bit_at_mulv:
  "i < 8 * (length e div 8) \<Longrightarrow> bit_at (mulv e v) i = dotb (e ! i) v"
  by (simp add: mulv_def bit_at_row_of_bits)

lemma Matrix_Mul_eq:
  assumes ne: "e \<noteq> []" and d8: "8 dvd length e"
    and len: "\<forall>r\<in>set e. length r = length v"
  shows "Matrix_Mul e v = Inr (mulv e v)"
proof -
  let ?k = "length e"
  let ?z = "replicate (?k div 8) (0 :: byte)"
  have k8: "8 * (?k div 8) = ?k" using d8 by simp
  obtain r rs where e: "e = r # rs" using ne by (cases e) auto
  have sz: "Matrix_Size e = Inr (?k, Row_Size v)"
    using len by (simp add: e Matrix_Size_def Row_Size_def)
  have "?k = 8 * length ?z" using k8 by simp
  moreover have "\<forall>j<?k. length (e ! j) = length v" using len by simp
  ultimately obtain w where w: "Mul_loop e v ?k 0 ?z = Inr w" "length w = length ?z"
    "\<forall>j<?k. bit_at w j = (bit_at ?z j \<or> (0 \<le> j \<and> dotb (e ! j) v))"
    using Mul_loop_bits [of ?k ?z e v 0] by blast
  have z: "\<not> bit_at ?z j" if "j < ?k" for j
    using bit_at_zero_row [of j ?k] that k8 by (simp add: zero_row_def)
  have "w = mulv e v"
  proof (rule Row_ext)
    show "length w = length (mulv e v)" using w(2) by (simp add: length_mulv)
  next
    fix i assume "i < 8 * length w"
    then have i: "i < ?k" using w(2) k8 by simp
    then show "bit_at w i = bit_at (mulv e v) i"
      using w(3) z [OF i] k8 by (simp add: bit_at_mulv)
  qed
  with w(1) sz show ?thesis by (simp add: Matrix_Mul_def)
qed

section \<open>Gauss-Jordan elimination keeps its invariant\<close>

lemma nth_swap_rows:
  "i < length f \<Longrightarrow> j < length f \<Longrightarrow> x < length f \<Longrightarrow>
   swap_rows f i j ! x = (if x = j then f ! i else if x = i then f ! j else f ! x)"
  by (simp add: swap_rows_def nth_list_update)

lemma length_swap_rows: "length (swap_rows f i j) = length f"
  by (simp add: swap_rows_def)

lemma wf_mat_nthI:
  "8 dvd k \<Longrightarrow> length e = k \<Longrightarrow> (\<And>i. i < k \<Longrightarrow> length (e ! i) = k div 8) \<Longrightarrow> wf_mat k e"
  by (auto simp: wf_mat_def in_set_conv_nth)

lemma wf_mat_swap:
  assumes "wf_mat k f" "i < k" "j < k"
  shows "wf_mat k (swap_rows f i j)"
proof (rule wf_mat_nthI)
  show "8 dvd k" "length (swap_rows f i j) = k"
    using assms by (simp_all add: wf_mat_def length_swap_rows)
next
  fix x assume "x < k"
  then show "length (swap_rows f i j ! x) = k div 8"
    using assms by (simp add: nth_swap_rows wf_mat_def)
qed

lemma inv_rel_swap:
  assumes "inv_rel M f out" "length f = length M" "length out = length M"
    "i < length M" "j < length M"
  shows "inv_rel M (swap_rows f i j) (swap_rows out i j)"
  using assms unfolding inv_rel_def by (simp add: nth_swap_rows)

lemma unit_cols_swap:
  assumes "unit_cols k f c" "length f = k" "c \<le> i" "c \<le> j" "i < k" "j < k"
  shows "unit_cols k (swap_rows f i j) c"
  unfolding unit_cols_def
proof (intro allI impI)
  fix y x assume y: "y < c" and x: "x < k"
  have "bit_at (f ! i) y = (i = y)" "bit_at (f ! j) y = (j = y)" "bit_at (f ! x) y = (x = y)"
    using assms y x by (simp_all add: unit_cols_def)
  then show "bit_at (swap_rows f i j ! x) y = (x = y)"
    using assms y x by (auto simp: nth_swap_rows)
qed

lemma length_cancel_rows: "length (cancel_rows f g row) = length g"
  by (simp add: cancel_rows_def)

lemma nth_cancel_rows:
  "x < length g \<Longrightarrow>
   cancel_rows f g row ! x
     = (if x \<noteq> row \<and> bit_at (f ! x) row then xor_rows (g ! x) (g ! row) else g ! x)"
  by (simp add: cancel_rows_def)

lemma wf_mat_cancel:
  assumes "wf_mat k g" "row < k"
  shows "wf_mat k (cancel_rows f g row)"
proof (rule wf_mat_nthI)
  show "8 dvd k" "length (cancel_rows f g row) = k"
    using assms by (simp_all add: wf_mat_def length_cancel_rows)
next
  fix x assume "x < k"
  then show "length (cancel_rows f g row ! x) = k div 8"
    using assms by (simp add: nth_cancel_rows wf_mat_def length_xor_rows)
qed

lemma inv_rel_cancel:
  assumes r: "inv_rel M f out" and wf: "wf_mat k f" "wf_mat k out"
    and k: "length M = k" and row: "row < k"
  shows "inv_rel M (cancel_rows f f row) (cancel_rows f out row)"
  unfolding inv_rel_def
proof (intro allI impI)
  fix i and v :: Row
  assume i: "i < length M" and v: "length v = length M div 8"
  have lf: "length (f ! i) = length (f ! row)" "length (out ! i) = length (out ! row)"
    using wf i k row by (simp_all add: wf_mat_def)
  have ri: "dotb (f ! i) v = dotb (out ! i) (mulv M v)"
    and rr: "dotb (f ! row) v = dotb (out ! row) (mulv M v)"
    using r i v k row by (simp_all add: inv_rel_def)
  show "dotb (cancel_rows f f row ! i) v = dotb (cancel_rows f out row ! i) (mulv M v)"
    using i k wf ri rr lf
    by (simp add: nth_cancel_rows wf_mat_def dotb_xor)
qed

lemma unit_cols_cancel:
  assumes u: "unit_cols k f row" and wf: "wf_mat k f" and row: "row < k"
    and p: "bit_at (f ! row) row"
  shows "unit_cols k (cancel_rows f f row) (row + 1)"
  unfolding unit_cols_def
proof (intro allI impI)
  fix j i assume j: "j < row + 1" and i: "i < k"
  have len: "length (f ! i) = length (f ! row)" "8 * length (f ! i) = k"
    using wf i row by (simp_all add: wf_mat_def)
  have jk: "j < 8 * length (f ! i)" using j row len by simp
  show "bit_at (cancel_rows f f row ! i) j = (i = j)"
  proof (cases "j = row")
    case True
    then show ?thesis
      using i wf p len jk by (auto simp: nth_cancel_rows wf_mat_def bit_at_xor_rows)
  next
    case False
    then have jr: "j < row" using j by simp
    have "bit_at (f ! i) j = (i = j)" "\<not> bit_at (f ! row) j"
      using u jr i row by (auto simp: unit_cols_def)
    then show ?thesis
      using i wf len jk by (auto simp: nth_cancel_rows wf_mat_def bit_at_xor_rows)
  qed
qed

lemma cancel_loop_wf:
  assumes "wf_mat k f" "wf_mat k out" "row < k"
  shows "cancel_loop f out k row 0 = Inr (cancel_rows f f row, cancel_rows f out row)"
proof -
  have "8 * (k div 8) = k" using assms by (simp add: wf_mat_def)
  from cancel_loop_eq [OF this, of f out row 0]
  show ?thesis using assms by (simp add: wf_mat_def cancel_rows_def)
qed

lemma find_cand_wf:
  assumes "wf_mat k f" "row < k"
  shows "find_cand f row k i c =
     Inr (case List.find (\<lambda>j. bit_at (f ! j) row) [i..<k] of None \<Rightarrow> c | Some j \<Rightarrow> j)"
  by (rule find_cand_eq) (use assms in \<open>simp add: wf_mat_def\<close>)

lemma Invert_loop_invariant:
  "Invert_loop f out k row = Inr (N, True) \<Longrightarrow> wf_mat k f \<Longrightarrow> wf_mat k out \<Longrightarrow>
   length M = k \<Longrightarrow> row \<le> k \<Longrightarrow> inv_rel M f out \<Longrightarrow> unit_cols k f row \<Longrightarrow>
   wf_mat k N \<and> (\<exists>f'. wf_mat k f' \<and> inv_rel M f' N \<and> unit_cols k f' k)"
proof (induction f out k row rule: Invert_loop.induct)
  case (1 f out k row)
  note res = "1.prems"(1) and wf = "1.prems"(2,3) and M = "1.prems"(4)
    and rel = "1.prems"(6) and uc = "1.prems"(7)
  show ?case
  proof (cases "row < k")
    case False
    with "1.prems"(5) have "row = k" by simp
    moreover from False res have "N = out" by (subst (asm) Invert_loop.simps) simp
    ultimately show ?thesis using wf rel uc by blast
  next
    case True
    let ?found = "List.find (\<lambda>j. bit_at (f ! j) row) [row..<k]"
    let ?c = "case ?found of None \<Rightarrow> 255 | Some j \<Rightarrow> j"
    have fc: "find_cand f row k row 255 = Inr ?c"
      by (rule find_cand_wf [OF wf(1) True])
    have c255: "?c \<noteq> 255"
      using res True fc by (subst (asm) Invert_loop.simps) auto
    then obtain c where fnd: "?found = Some c" by (cases ?found) auto
    then have c: "row \<le> c" "c < k" "bit_at (f ! c) row"
      by (auto simp: find_Some_iff)
    have cc: "?c = c" using fnd by simp
    let ?f1 = "swap_rows f row c" and ?o1 = "swap_rows out row c"
    have lf: "length f = k" "length out = k" using wf by (simp_all add: wf_mat_def)
    have wf1: "wf_mat k ?f1" "wf_mat k ?o1"
      using wf True c by (simp_all add: wf_mat_swap)
    have rel1: "inv_rel M ?f1 ?o1"
      using inv_rel_swap [OF rel] lf M True c by simp
    have uc1: "unit_cols k ?f1 row"
      using unit_cols_swap [OF uc lf(1) _ c(1) True c(2)] by simp
    have p1: "bit_at (?f1 ! row) row"
      using c True lf by (auto simp: nth_swap_rows)
    let ?f2 = "cancel_rows ?f1 ?f1 row" and ?o2 = "cancel_rows ?f1 ?o1 row"
    have cl: "cancel_loop (f[row := f ! ?c, ?c := f ! row])
                (out[row := out ! ?c, ?c := out ! row]) k row 0 = Inr (?f2, ?o2)"
      using cancel_loop_wf [OF wf1 True] by (simp add: cc swap_rows_def)
    have wf2: "wf_mat k ?f2" "wf_mat k ?o2"
      using wf1 True by (simp_all add: wf_mat_cancel)
    have rel2: "inv_rel M ?f2 ?o2"
      by (rule inv_rel_cancel [OF rel1 wf1 M True])
    have uc2: "unit_cols k ?f2 (row + 1)"
      by (rule unit_cols_cancel [OF uc1 wf1(1) True p1])
    have next_call: "Invert_loop ?f2 ?o2 k (row + 1) = Inr (N, True)"
      using res True fc c255 cl by (subst (asm) Invert_loop.simps) simp
    show ?thesis
      using "1.IH" [OF True fc c255 cl refl next_call wf2 M _ rel2 uc2] True by simp
  qed
qed

section \<open>The result of inversion is a two-sided inverse\<close>

lemma wf_mat_ident: "8 dvd k \<Longrightarrow> wf_mat k (ident k)"
  by (rule wf_mat_nthI) (simp_all add: length_ident nth_ident length_unit_row)

lemma inv_rel_start:
  assumes "8 dvd length M"
  shows "inv_rel M M (ident (length M))"
  unfolding inv_rel_def
proof (intro allI impI)
  fix i and v :: Row
  assume i: "i < length M"
  have k8: "8 * (length M div 8) = length M" using assms by simp
  have "dotb (ident (length M) ! i) (mulv M v) = bit_at (mulv M v) i"
    using i k8 by (simp add: nth_ident dotb_unit)
  also have "\<dots> = dotb (M ! i) v"
    using i k8 by (simp add: bit_at_mulv)
  finally show "dotb (M ! i) v = dotb (ident (length M) ! i) (mulv M v)" by simp
qed

lemma unit_cols_rows:
  assumes "wf_mat k f" "unit_cols k f k" "i < k"
  shows "f ! i = unit_row k i"
proof (rule Row_ext)
  show "length (f ! i) = length (unit_row k i)"
    using assms by (simp add: wf_mat_def length_unit_row)
next
  fix j assume "j < 8 * length (f ! i)"
  then have j: "j < k" using assms by (simp add: wf_mat_def)
  have k8: "8 * (k div 8) = k" using assms by (simp add: wf_mat_def)
  show "bit_at (f ! i) j = bit_at (unit_row k i) j"
    using assms j k8 by (simp add: unit_cols_def bit_at_unit_row)
qed

lemma Invert_shapes:
  assumes inv: "Invert M = Inr (N, ok)" and same: "\<forall>r\<in>set M. length r = length (hd M)"
  shows "M \<noteq> [] \<and> wf_mat (length M) M
         \<and> Invert_loop M (ident (length M)) (length M) 0 = Inr (N, ok)"
proof -
  obtain r rs where M: "M = r # rs"
    using inv by (cases M) (auto simp: Invert_def Matrix_Size_def)
  have sq: "length M = 8 * length r"
    using inv by (auto simp: M Invert_def Matrix_Size_def Row_Size_def split: if_splits)
  then have d8: "8 dvd length M" by simp
  have "wf_mat (length M) M"
    using same sq d8 by (auto simp: wf_mat_def M)
  moreover have "Invert_loop M (ident (length M)) (length M) 0 = Inr (N, ok)"
    using inv sq GenerateIdentity_eq [OF d8]
    by (auto simp: M Invert_def Matrix_Size_def Row_Size_def split: if_splits)
  ultimately show ?thesis using M by simp
qed

lemma Invert_left_inverse:
  assumes inv: "Invert M = Inr (N, True)" and same: "\<forall>r\<in>set M. length r = length (hd M)"
    and v: "length v = length M div 8"
  shows "wf_mat (length M) N \<and> mulv N (mulv M v) = v"
proof -
  let ?k = "length M"
  from Invert_shapes [OF inv same]
  have ne: "M \<noteq> []" and wfM: "wf_mat ?k M"
    and loop: "Invert_loop M (ident ?k) ?k 0 = Inr (N, True)" by simp_all
  have d8: "8 dvd ?k" and k8: "8 * (?k div 8) = ?k" using wfM by (simp_all add: wf_mat_def)
  have "unit_cols ?k M 0" by (simp add: unit_cols_def)
  from Invert_loop_invariant [OF loop wfM wf_mat_ident [OF d8] refl _ inv_rel_start [OF d8] this]
  obtain f' where wfN: "wf_mat ?k N" and f': "wf_mat ?k f'" "inv_rel M f' N" "unit_cols ?k f' ?k"
    by auto
  have "mulv N (mulv M v) = v"
  proof (rule Row_ext)
    show "length (mulv N (mulv M v)) = length v"
      using wfN v by (simp add: length_mulv wf_mat_def)
  next
    fix i assume "i < 8 * length (mulv N (mulv M v))"
    then have i: "i < ?k" using wfN k8 by (simp add: length_mulv wf_mat_def)
    have lN: "length N = ?k" using wfN by (simp add: wf_mat_def)
    have "bit_at (mulv N (mulv M v)) i = dotb (N ! i) (mulv M v)"
      using i k8 lN by (simp add: bit_at_mulv)
    also have "\<dots> = dotb (f' ! i) v"
      using f'(2) i v by (simp add: inv_rel_def)
    also have "\<dots> = bit_at v i"
      using unit_cols_rows [OF f'(1,3) i] i k8 by (simp add: dotb_unit)
    finally show "bit_at (mulv N (mulv M v)) i = bit_at v i" .
  qed
  with wfN show ?thesis by simp
qed

lemma finite_rows: "finite {v :: Row. length v = m}"
  using finite_lists_length_eq [of "UNIV :: byte set" m] by simp

lemma Invert_right_inverse:
  assumes inv: "Invert M = Inr (N, True)" and same: "\<forall>r\<in>set M. length r = length (hd M)"
    and v: "length v = length M div 8"
  shows "mulv M (mulv N v) = v"
proof -
  let ?V = "{v :: Row. length v = length M div 8}"
  have left: "mulv N (mulv M u) = u" if "u \<in> ?V" for u
    using Invert_left_inverse [OF inv same, of u] that by simp
  have "inj_on (mulv M) ?V"
    by (rule inj_on_inverseI [where g = "mulv N"]) (rule left)
  moreover have "mulv M ` ?V \<subseteq> ?V" by (auto simp: length_mulv)
  ultimately have "mulv M ` ?V = ?V"
    using finite_rows [of "length M div 8"] by (simp add: endo_inj_surj)
  then obtain u where u: "u \<in> ?V" "v = mulv M u" using v by blast
  then show ?thesis using left [OF u(1)] by simp
qed

text \<open>
  C1. When \<open>Invert\<close> succeeds on a square matrix \<open>M\<close> whose rows all have the same
  width, its result \<open>N\<close> is a two-sided inverse: for every row \<open>v\<close> of that width,
  \<open>M.Mul(N.Mul(v))\<close> and \<open>N.Mul(M.Mul(v))\<close> both return \<open>v\<close>.
\<close>

theorem Invert_two_sided_inverse:
  assumes "Invert M = Inr (N, True)" and "\<forall>r\<in>set M. length r = length (hd M)"
    and "Row_Size v = length M"
  shows "and_then (Matrix_Mul N v) (Matrix_Mul M) = Inr v
         \<and> and_then (Matrix_Mul M v) (Matrix_Mul N) = Inr v"
proof -
  let ?k = "length M"
  from Invert_shapes [OF assms(1,2)]
  have ne: "M \<noteq> []" and wfM: "wf_mat ?k M" by simp_all
  have d8: "8 dvd ?k" using wfM by (simp add: wf_mat_def)
  have v: "length v = ?k div 8" using assms(3) by (auto simp: Row_Size_def)
  have wfN: "wf_mat ?k N" and left: "mulv N (mulv M v) = v"
    using Invert_left_inverse [OF assms(1,2) v] by simp_all
  have right: "mulv M (mulv N v) = v"
    by (rule Invert_right_inverse [OF assms(1,2) v])
  have neN: "N \<noteq> []" using wfN ne by (auto simp: wf_mat_def)
  have lN: "length N = ?k" using wfN by (simp add: wf_mat_def)
  have mul: "Matrix_Mul M w = Inr (mulv M w)" "Matrix_Mul N w = Inr (mulv N w)"
    if "length w = ?k div 8" for w
    using that wfM wfN ne neN lN
    by (simp_all add: Matrix_Mul_eq wf_mat_def)
  have "length (mulv N v) = ?k div 8" "length (mulv M v) = ?k div 8"
    using lN by (simp_all add: length_mulv)
  then show ?thesis
    using mul [OF v] mul left right by (simp add: and_then_def)
qed

theorem Invert_two_sided_inverse_witness:
  "Invert [[3], [2], [5], [8], [16], [32], [64], [128]]
     = Inr ([[3], [2], [7], [8], [16], [32], [64], [128]], True)
   \<and> Row_Size [0x5A] = length [[3], [2], [5], [8], [16], [32], [64], [128 :: byte]]
   \<and> and_then (Matrix_Mul [[3], [2], [7], [8], [16], [32], [64], [128]] [0x5A])
        (Matrix_Mul [[3], [2], [5], [8], [16], [32], [64], [128]]) = Inr [0x5A]
   \<and> and_then (Matrix_Mul [[3], [2], [5], [8], [16], [32], [64], [128]] [0x5A])
        (Matrix_Mul [[3], [2], [7], [8], [16], [32], [64], [128]]) = Inr [0x5A]"
proof -
  have i: "Invert [[3], [2], [5], [8], [16], [32], [64], [128]]
     = Inr ([[3], [2], [7], [8], [16], [32], [64], [128]], True)"
    by code_simp
  show ?thesis
    using Invert_two_sided_inverse [OF i, of "[0x5A]"] i by (simp add: Row_Size_def)
qed


section \<open>Parities\<close>

lemma par_0: "par 0 P = False"
  by (simp add: par_def)

lemma par_Suc: "par (Suc m) P = (par m P \<noteq> P m)"
  by (simp add: par_def)

lemma par_cong: "(\<And>a. a < m \<Longrightarrow> P a = Q a) \<Longrightarrow> par m P = par m Q"
  by (induction m) (simp_all add: par_0 par_Suc)

lemma par_False: "par m (\<lambda>a. False) = False"
  by (simp add: par_def)

lemma par_neq: "par m (\<lambda>a. P a \<noteq> Q a) = (par m P \<noteq> par m Q)"
  by (induction m) (auto simp: par_0 par_Suc)

lemma par_and_left: "par m (\<lambda>a. c \<and> P a) = (c \<and> par m P)"
  by (cases c) (simp_all add: par_False)

lemma par_and_right: "par m (\<lambda>a. P a \<and> c) = (par m P \<and> c)"
  by (cases c) (simp_all add: par_False)

lemma par_single: "par m (\<lambda>a. a = b \<and> P a) = (b < m \<and> P b)"
  by (induction m) (auto simp: par_0 par_Suc)

lemma par_swap: "par m (\<lambda>a. par l (\<lambda>b. R a b)) = par l (\<lambda>b. par m (\<lambda>a. R a b))"
proof (induction m)
  case 0
  show ?case by (simp add: par_0 par_False)
next
  case (Suc m)
  have "par l (\<lambda>b. par (Suc m) (\<lambda>a. R a b)) = par l (\<lambda>b. par m (\<lambda>a. R a b) \<noteq> R m b)"
    by (simp add: par_Suc)
  also have "\<dots> = (par l (\<lambda>b. par m (\<lambda>a. R a b)) \<noteq> par l (R m))"
    by (rule par_neq)
  finally show ?case using Suc by (simp add: par_Suc)
qed

lemma dotb_par:
  "dotb e f = par (8 * length e) (\<lambda>i. bit_at e i \<and> bit_at f i)"
  by (simp add: dotb_def common_ones_def par_def)

section \<open>Leading bits and pivots\<close>

lemma leading_Some:
  "leading e = Some p \<Longrightarrow> p < 8 * length e \<and> bit_at e p \<and> (\<forall>i<p. \<not> bit_at e i)"
  by (auto simp: leading_def find_Some_iff)

lemma leading_SomeI:
  assumes "p < 8 * length e" "bit_at e p" "\<And>i. i < p \<Longrightarrow> \<not> bit_at e i"
  shows "leading e = Some p"
  unfolding leading_def find_Some_iff
  using assms by (intro exI [of _ p]) auto

lemma leading_None: "(leading e = None) = (\<forall>i<8 * length e. \<not> bit_at e i)"
  by (auto simp: leading_def find_None_iff)

lemma pivot_of_Some: "leading e = Some p \<Longrightarrow> pivot_of e = p"
  by (simp add: pivot_of_def)

lemma pivot_of_props:
  assumes "leading e \<noteq> None"
  shows "leading e = Some (pivot_of e)" "pivot_of e < 8 * length e" "bit_at e (pivot_of e)"
    "\<And>i. i < pivot_of e \<Longrightarrow> \<not> bit_at e i"
proof -
  from assms obtain p where p: "leading e = Some p" by auto
  then have pe: "pivot_of e = p" by (rule pivot_of_Some)
  show "leading e = Some (pivot_of e)" using p pe by simp
  show "pivot_of e < 8 * length e" "bit_at e (pivot_of e)"
    using leading_Some [OF p] pe by simp_all
  show "\<And>i. i < pivot_of e \<Longrightarrow> \<not> bit_at e i"
    using leading_Some [OF p] pe by simp
qed

lemma echelon_pivot_inj:
  assumes "echelon k S" "a < length S" "b < length S" "pivot_of (S ! a) = pivot_of (S ! b)"
  shows "a = b"
proof -
  have "bit_at (S ! b) (pivot_of (S ! b))"
    using assms(1,3) pivot_of_props(3) [of "S ! b"] by (simp add: echelon_def)
  then have "bit_at (S ! b) (pivot_of (S ! a))" using assms(4) by simp
  then show ?thesis using assms(1,2,3) by (simp add: echelon_def)
qed

lemma pivot_row_Some:
  assumes "echelon k S" "a < length S"
  shows "pivot_row S (pivot_of (S ! a)) = Some a"
proof -
  have la: "leading (S ! a) = Some (pivot_of (S ! a))"
    using assms pivot_of_props(1) [of "S ! a"] by (simp add: echelon_def)
  have "\<And>b. b < a \<Longrightarrow> leading (S ! b) \<noteq> Some (pivot_of (S ! a))"
  proof
    fix b assume b: "b < a" and "leading (S ! b) = Some (pivot_of (S ! a))"
    then have "pivot_of (S ! b) = pivot_of (S ! a)" by (simp add: pivot_of_Some)
    from echelon_pivot_inj [OF assms(1) _ assms(2) this] b assms(2) show False by simp
  qed
  then show ?thesis
    unfolding pivot_row_def find_Some_iff
    using assms(2) la by (intro exI [of _ a]) auto
qed

lemma pivot_row_SomeD:
  "pivot_row S p = Some a \<Longrightarrow> a < length S \<and> leading (S ! a) = Some p"
  by (auto simp: pivot_row_def find_Some_iff)

lemma pivot_row_None:
  "pivot_row S p = None \<Longrightarrow> a < length S \<Longrightarrow> leading (S ! a) \<noteq> Some p"
  by (auto simp: pivot_row_def find_None_iff)

section \<open>The reduction of a row, in closed form\<close>

lemma par_skip:
  assumes "\<And>k. k < r \<Longrightarrow> piv k = a \<Longrightarrow> \<not> A k"
  shows "par r (\<lambda>k. a \<le> piv k \<and> A k \<and> G k) = par r (\<lambda>k. Suc a \<le> piv k \<and> A k \<and> G k)"
proof (rule par_cong)
  fix k assume "k < r"
  from assms [OF this] show "(a \<le> piv k \<and> A k \<and> G k) = (Suc a \<le> piv k \<and> A k \<and> G k)"
    by (cases "piv k = a") auto
qed

lemma par_peel:
  assumes "k0 < r" "\<And>k. k < r \<Longrightarrow> (piv k = a) = (k = k0)" "A k0"
  shows "par r (\<lambda>k. a \<le> piv k \<and> A k \<and> G k)
         = (G k0 \<noteq> par r (\<lambda>k. Suc a \<le> piv k \<and> A k \<and> G k))"
proof -
  have "par r (\<lambda>k. a \<le> piv k \<and> A k \<and> G k)
      = par r (\<lambda>k. (k = k0 \<and> G k) \<noteq> (Suc a \<le> piv k \<and> A k \<and> G k))"
  proof (rule par_cong)
    fix k assume k: "k < r"
    show "(a \<le> piv k \<and> A k \<and> G k) = ((k = k0 \<and> G k) \<noteq> (Suc a \<le> piv k \<and> A k \<and> G k))"
    proof (cases "k = k0")
      case True
      then have "piv k = a" using assms(2) [OF k] by simp
      with True assms(3) show ?thesis by auto
    next
      case False
      then have "piv k \<noteq> a" using assms(2) [OF k] by simp
      with False show ?thesis by auto
    qed
  qed
  also have "\<dots> = ((k0 < r \<and> G k0) \<noteq> par r (\<lambda>k. Suc a \<le> piv k \<and> A k \<and> G k))"
    by (simp only: par_neq par_single)
  finally show ?thesis using assms(1) by simp
qed

lemma reduce_cols_closed:
  assumes ech: "echelon n S" and lC: "length C = length S"
    "\<And>k. k < length S \<Longrightarrow> length (C ! k) = n div 8"
    and n8: "8 dvd n"
  shows "reduce_cols S C [a..<n] (row, coef) = (row', coef') \<Longrightarrow> a \<le> n \<Longrightarrow>
     length row = n div 8 \<Longrightarrow> length coef = n div 8 \<Longrightarrow>
     length row' = n div 8 \<and> length coef' = n div 8
     \<and> (\<forall>i<n. bit_at row' i = (bit_at row i \<noteq> par (length S)
           (\<lambda>k. a \<le> pivot_of (S ! k) \<and> bit_at row (pivot_of (S ! k)) \<and> bit_at (S ! k) i)))
     \<and> (\<forall>i<n. bit_at coef' i = (bit_at coef i \<noteq> par (length S)
           (\<lambda>k. a \<le> pivot_of (S ! k) \<and> bit_at row (pivot_of (S ! k)) \<and> bit_at (C ! k) i)))"
proof (induction "n - a" arbitrary: a row coef)
  case 0
  then have "a = n" by simp
  have big: "\<not> n \<le> pivot_of (S ! k)" if "k < length S" for k
  proof -
    have "pivot_of (S ! k) < 8 * length (S ! k)"
      using ech that by (intro pivot_of_props(2)) (simp add: echelon_def)
    then show ?thesis using ech that n8 by (simp add: echelon_def)
  qed
  have "par (length S) (\<lambda>k. n \<le> pivot_of (S ! k) \<and> A k \<and> G k) = False" for A G
    using par_cong [of "length S" "\<lambda>k. n \<le> pivot_of (S ! k) \<and> A k \<and> G k" "\<lambda>k. False"] big
    by (simp add: par_False)
  then show ?case using "0.prems" \<open>a = n\<close> by simp
next
  case (Suc d)
  let ?r = "length S"
  let ?piv = "\<lambda>k. pivot_of (S ! k)"
  have an: "a < n" using Suc.hyps(2) by simp
  have up: "[a..<n] = a # [Suc a..<n]" using an by (simp add: upt_conv_Cons)
  have k8: "8 * (n div 8) = n" using n8 by simp
  have lS: "length (S ! k) = n div 8" and ldS: "leading (S ! k) = Some (?piv k)"
    and pn: "?piv k < n" if "k < ?r" for k
  proof -
    show l: "length (S ! k) = n div 8" using ech that by (simp add: echelon_def)
    have nz: "leading (S ! k) \<noteq> None" using ech that by (simp add: echelon_def)
    show "leading (S ! k) = Some (?piv k)" by (rule pivot_of_props(1) [OF nz])
    show "?piv k < n" using pivot_of_props(2) [OF nz] l k8 by simp
  qed
  have d: "d = n - Suc a" using Suc.hyps(2) by simp
  show ?case
  proof (cases "pivot_row S a")
    case None
    have rec: "reduce_cols S C [Suc a..<n] (row, coef) = (row', coef')"
      using Suc.prems(1) None by (simp add: up)
    have np: "?piv k \<noteq> a" if "k < ?r" for k
      using pivot_row_None [OF None that] ldS [OF that] by auto
    have eq: "par ?r (\<lambda>k. a \<le> ?piv k \<and> A k \<and> G k)
            = par ?r (\<lambda>k. Suc a \<le> ?piv k \<and> A k \<and> G k)" for A G
      by (rule par_skip) (use np in auto)
    from Suc.hyps(1) [OF d rec _ Suc.prems(3,4)] an show ?thesis
      by (simp add: eq)
  next
    case (Some k0)
    have k0: "k0 < ?r" and pk0: "?piv k0 = a"
      using pivot_row_SomeD [OF Some] by (simp_all add: pivot_of_Some)
    have uniq: "(?piv k = a) = (k = k0)" if "k < ?r" for k
      using echelon_pivot_inj [OF ech that k0] pk0 by auto
    show ?thesis
    proof (cases "bit_at row a")
      case False
      have rec: "reduce_cols S C [Suc a..<n] (row, coef) = (row', coef')"
        using Suc.prems(1) Some False by (simp add: up)
      have eq: "par ?r (\<lambda>k. a \<le> ?piv k \<and> bit_at row (?piv k) \<and> G k)
              = par ?r (\<lambda>k. Suc a \<le> ?piv k \<and> bit_at row (?piv k) \<and> G k)" for G
        by (rule par_skip) (use False in auto)
      from Suc.hyps(1) [OF d rec _ Suc.prems(3,4)] an show ?thesis
        by (simp add: eq)
    next
      case True
      let ?row1 = "xor_rows row (S ! k0)" and ?coef1 = "xor_rows coef (C ! k0)"
      have rec: "reduce_cols S C [Suc a..<n] (?row1, ?coef1) = (row', coef')"
        using Suc.prems(1) Some True by (simp add: up)
      have l1: "length ?row1 = n div 8" "length ?coef1 = n div 8"
        using Suc.prems(3,4) lS [OF k0] lC(2) [OF k0] by (simp_all add: length_xor_rows)
      have b1: "bit_at ?row1 i = (bit_at row i \<noteq> bit_at (S ! k0) i)"
        and c1: "bit_at ?coef1 i = (bit_at coef i \<noteq> bit_at (C ! k0) i)" if "i < n" for i
        using that Suc.prems(3,4) lS [OF k0] lC(2) [OF k0] k8
        by (simp_all add: bit_at_xor_rows)
      have same: "par ?r (\<lambda>k. Suc a \<le> ?piv k \<and> bit_at ?row1 (?piv k) \<and> G k)
                = par ?r (\<lambda>k. Suc a \<le> ?piv k \<and> bit_at row (?piv k) \<and> G k)" for G
      proof (rule par_cong)
        fix k assume k: "k < ?r"
        show "(Suc a \<le> ?piv k \<and> bit_at ?row1 (?piv k) \<and> G k)
            = (Suc a \<le> ?piv k \<and> bit_at row (?piv k) \<and> G k)"
        proof (cases "k = k0")
          case True
          then show ?thesis using pk0 by simp
        next
          case False
          have "\<not> bit_at (S ! k0) (?piv k)"
            using ech k k0 False by (auto simp: echelon_def)
          then show ?thesis using b1 [OF pn [OF k]] by simp
        qed
      qed
      have peel: "par ?r (\<lambda>k. a \<le> ?piv k \<and> bit_at row (?piv k) \<and> G k)
            = (G k0 \<noteq> par ?r (\<lambda>k. Suc a \<le> ?piv k \<and> bit_at row (?piv k) \<and> G k))" for G
        by (rule par_peel [OF k0]) (use uniq True pk0 in auto)
      from Suc.hyps(1) [OF d rec _ l1] an
      have ih: "length row' = n div 8" "length coef' = n div 8"
        "\<forall>i<n. bit_at row' i = (bit_at ?row1 i \<noteq> par ?r
           (\<lambda>k. Suc a \<le> ?piv k \<and> bit_at ?row1 (?piv k) \<and> bit_at (S ! k) i))"
        "\<forall>i<n. bit_at coef' i = (bit_at ?coef1 i \<noteq> par ?r
           (\<lambda>k. Suc a \<le> ?piv k \<and> bit_at ?row1 (?piv k) \<and> bit_at (C ! k) i))"
        by simp_all
      have "\<forall>i<n. bit_at row' i = (bit_at row i \<noteq> par ?r
           (\<lambda>k. a \<le> ?piv k \<and> bit_at row (?piv k) \<and> bit_at (S ! k) i))"
        using ih(3) b1 by (auto simp: same peel)
      moreover have "\<forall>i<n. bit_at coef' i = (bit_at coef i \<noteq> par ?r
           (\<lambda>k. a \<le> ?piv k \<and> bit_at row (?piv k) \<and> bit_at (C ! k) i))"
        using ih(4) c1 by (auto simp: same peel)
      ultimately show ?thesis using ih(1,2) by simp
    qed
  qed
qed


section \<open>The builder's invariant\<close>

lemma binv_empty: "8 dvd k \<Longrightarrow> binv k [] [] []"
  by (simp add: binv_def echelon_def)

lemma binv_reduce:
  assumes inv: "binv n R S C" and lx: "length x = n div 8"
    and red: "reduce_cols S C [0..<n] (x, unit_row n (length R)) = (x', c')"
  shows "length x' = n div 8" "length c' = n div 8"
    "\<And>i. i < n \<Longrightarrow> bit_at x' i = (bit_at x i \<noteq> par (length R)
        (\<lambda>k. bit_at x (pivot_of (S ! k)) \<and> bit_at (S ! k) i))"
    "\<And>i. i < n \<Longrightarrow> bit_at c' i = (bit_at (unit_row n (length R)) i \<noteq> par (length R)
        (\<lambda>k. bit_at x (pivot_of (S ! k)) \<and> bit_at (C ! k) i))"
    "\<And>k. k < length R \<Longrightarrow> \<not> bit_at x' (pivot_of (S ! k))"
proof -
  let ?r = "length R"
  have n8: "8 dvd n" and lS: "length S = ?r" and lC: "length C = length S"
    and ech: "echelon n S" and lCk: "\<And>k. k < length S \<Longrightarrow> length (C ! k) = n div 8"
    using inv by (simp_all add: binv_def)
  from reduce_cols_closed [OF ech lC lCk n8 red _ lx] lS
  have cl: "length x' = n div 8" "length c' = n div 8"
    "\<forall>i<n. bit_at x' i = (bit_at x i \<noteq> par ?r
        (\<lambda>k. bit_at x (pivot_of (S ! k)) \<and> bit_at (S ! k) i))"
    "\<forall>i<n. bit_at c' i = (bit_at (unit_row n ?r) i \<noteq> par ?r
        (\<lambda>k. bit_at x (pivot_of (S ! k)) \<and> bit_at (C ! k) i))"
    by (simp_all add: length_unit_row)
  show "length x' = n div 8" "length c' = n div 8" by (rule cl)+
  show x'_bits: "\<And>i. i < n \<Longrightarrow> bit_at x' i = (bit_at x i \<noteq> par ?r
        (\<lambda>k. bit_at x (pivot_of (S ! k)) \<and> bit_at (S ! k) i))"
    using cl(3) by simp
  show "\<And>i. i < n \<Longrightarrow> bit_at c' i = (bit_at (unit_row n ?r) i \<noteq> par ?r
        (\<lambda>k. bit_at x (pivot_of (S ! k)) \<and> bit_at (C ! k) i))"
    using cl(4) by simp
  show "\<not> bit_at x' (pivot_of (S ! k))" if k: "k < ?r" for k
  proof -
    let ?p = "pivot_of (S ! k)"
    have nz: "leading (S ! k) \<noteq> None" and lk: "length (S ! k) = n div 8"
      using ech k lS by (simp_all add: echelon_def)
    have pn: "?p < n" using pivot_of_props(2) [OF nz] lk n8 by simp
    have "par ?r (\<lambda>a. bit_at x (pivot_of (S ! a)) \<and> bit_at (S ! a) ?p)
        = par ?r (\<lambda>a. a = k \<and> bit_at x (pivot_of (S ! a)))"
      by (rule par_cong) (use ech k lS in \<open>auto simp: echelon_def\<close>)
    also have "\<dots> = bit_at x ?p" using k by (simp add: par_single)
    finally show ?thesis using x'_bits [OF pn] by simp
  qed
qed

lemma echelon_rank_less:
  assumes ech: "echelon n S" and n8: "8 dvd n" and p: "p < n"
    and np: "\<And>k. k < length S \<Longrightarrow> pivot_of (S ! k) \<noteq> p"
  shows "length S < n"
proof -
  let ?piv = "\<lambda>k. pivot_of (S ! k)"
  have inj: "inj_on ?piv {..<length S}"
    by (rule inj_onI) (use echelon_pivot_inj [OF ech] in auto)
  have sub: "?piv ` {..<length S} \<subseteq> {..<n} - {p}"
  proof
    fix q assume "q \<in> ?piv ` {..<length S}"
    then obtain k where k: "k < length S" "q = ?piv k" by auto
    have "leading (S ! k) \<noteq> None" "length (S ! k) = n div 8"
      using ech k by (simp_all add: echelon_def)
    then have "?piv k < n" using pivot_of_props(2) [of "S ! k"] n8 by simp
    then show "q \<in> {..<n} - {p}" using k np by auto
  qed
  have "length S = card (?piv ` {..<length S})"
    using inj by (simp add: card_image)
  also have "\<dots> \<le> card ({..<n} - {p})"
    by (rule card_mono) (use sub in auto)
  also have "\<dots> = n - 1" using p by simp
  finally show ?thesis using p by simp
qed

lemma par_distrib_and:
  "par m (\<lambda>a. D a \<and> (P a \<noteq> (b a \<and> c))) = (par m (\<lambda>a. D a \<and> P a) \<noteq> (par m (\<lambda>a. D a \<and> b a) \<and> c))"
proof -
  have "par m (\<lambda>a. D a \<and> (P a \<noteq> (b a \<and> c))) = par m (\<lambda>a. (D a \<and> P a) \<noteq> ((D a \<and> b a) \<and> c))"
    by (rule par_cong) auto
  then show ?thesis by (simp only: par_neq par_and_right)
qed

lemma par_distrib_and2:
  "par m (\<lambda>a. (P a \<noteq> (b \<and> c a)) \<and> D a) = (par m (\<lambda>a. P a \<and> D a) \<noteq> (b \<and> par m (\<lambda>a. c a \<and> D a)))"
proof -
  have "par m (\<lambda>a. (P a \<noteq> (b \<and> c a)) \<and> D a) = par m (\<lambda>a. (P a \<and> D a) \<noteq> (b \<and> (c a \<and> D a)))"
    by (rule par_cong) auto
  then show ?thesis by (simp only: par_neq par_and_left)
qed

lemma binv_extend:
  assumes inv: "binv n R S C" and lx: "length x = n div 8"
    and red: "reduce_cols S C [0..<n] (x, unit_row n (length R)) = (x', c')"
    and lead: "leading x' = Some p"
  shows "binv n (R @ [x]) (map (\<lambda>s. if bit_at s p then xor_rows s x' else s) S @ [x'])
            (map2 (\<lambda>s c. if bit_at s p then xor_rows c c' else c) S C @ [c'])"
proof -
  let ?r = "length R"
  let ?piv = "\<lambda>k. pivot_of (S ! k)"
  let ?A = "\<lambda>k. bit_at x (?piv k)"
  let ?b = "\<lambda>k. bit_at (S ! k) p"
  let ?S' = "map (\<lambda>s. if bit_at s p then xor_rows s x' else s) S @ [x']"
  let ?C' = "map2 (\<lambda>s c. if bit_at s p then xor_rows c c' else c) S C @ [c']"
  let ?R' = "R @ [x]"
  have n8: "8 dvd n" and lS: "length S = ?r" and lC: "length C = ?r" and ech: "echelon n S"
    using inv by (simp_all add: binv_def)
  have k8: "8 * (n div 8) = n" using n8 by simp
  have lRk: "length (R ! a) = n div 8" and lCk: "length (C ! a) = n div 8" if "a < ?r" for a
    using inv that by (simp_all add: binv_def)
  have invd: "bit_at (S ! a) i = par ?r (\<lambda>j. bit_at (C ! a) j \<and> bit_at (R ! j) i)"
    if "a < ?r" "i < n" for a i using inv that by (simp add: binv_def)
  have inve: "\<not> bit_at (C ! a) j" if "a < ?r" "j < n" "?r \<le> j" for a j
    using inv that by (simp add: binv_def)
  have invf: "bit_at (R ! j) i = par ?r (\<lambda>a. bit_at (R ! j) (?piv a) \<and> bit_at (S ! a) i)"
    if "j < ?r" "i < n" for j i using inv that by (simp add: binv_def)
  have lSk: "length (S ! k) = n div 8" and nz: "leading (S ! k) \<noteq> None" if "k < ?r" for k
    using ech that lS by (simp_all add: echelon_def)
  have pk: "?piv k < n" "bit_at (S ! k) (?piv k)" "\<And>i. i < ?piv k \<Longrightarrow> \<not> bit_at (S ! k) i"
    if "k < ?r" for k
    using pivot_of_props(2-4) [OF nz [OF that]] lSk [OF that] k8 by simp_all
  have cross: "bit_at (S ! b) (?piv a) = (b = a)" if "a < ?r" "b < ?r" for a b
    using ech that lS by (simp add: echelon_def)
  note rx = binv_reduce [OF inv lx red]
  have lp: "p < n" "bit_at x' p" "\<And>i. i < p \<Longrightarrow> \<not> bit_at x' i"
    using leading_Some [OF lead] rx(1) k8 by simp_all
  have np: "?piv k \<noteq> p" if "k < ?r" for k
    using rx(5) [OF that] lp(2) by auto
  have rn: "?r < n"
    using echelon_rank_less [OF ech n8 lp(1)] np lS by simp
  have ub: "bit_at (unit_row n ?r) i = (?r = i)" if "i < n" for i
    using bit_at_unit_row [of ?r n i] rn that k8 by simp
  have x'b: "bit_at x' i = (bit_at x i \<noteq> par ?r (\<lambda>k. ?A k \<and> bit_at (S ! k) i))"
    if "i < n" for i using rx(3) [OF that] .
  have c'b: "bit_at c' i = ((?r = i) \<noteq> par ?r (\<lambda>k. ?A k \<and> bit_at (C ! k) i))"
    if "i < n" for i using rx(4) [OF that] ub [OF that] by simp
  have c'r: "bit_at c' ?r"
  proof -
    have "par ?r (\<lambda>k. ?A k \<and> bit_at (C ! k) ?r) = par ?r (\<lambda>k. False)"
      by (rule par_cong) (use inve rn in auto)
    then show ?thesis using c'b [OF rn] by (simp add: par_False)
  qed
  have c'lt: "bit_at c' j = par ?r (\<lambda>k. ?A k \<and> bit_at (C ! k) j)" if "j < ?r" for j
    using c'b [of j] that rn by simp
  have c'gt: "\<not> bit_at c' j" if "j < n" "Suc ?r \<le> j" for j
  proof -
    have "par ?r (\<lambda>k. ?A k \<and> bit_at (C ! k) j) = par ?r (\<lambda>k. False)"
      by (rule par_cong) (use inve that in auto)
    then show ?thesis using c'b [OF that(1)] that(2) by (simp add: par_False)
  qed
  \<comment> \<open>the rows of the new state\<close>
  have S'k: "?S' ! k = (if ?b k then xor_rows (S ! k) x' else S ! k)" if "k < ?r" for k
    using that lS by (simp add: nth_append)
  have S'r: "?S' ! ?r = x'" using lS by (simp add: nth_append)
  have C'k: "?C' ! k = (if ?b k then xor_rows (C ! k) c' else C ! k)" if "k < ?r" for k
    using that lS lC by (simp add: nth_append)
  have C'r: "?C' ! ?r = c'" using lS lC by (simp add: nth_append)
  have R'k: "?R' ! k = R ! k" if "k < ?r" for k using that by (simp add: nth_append)
  have R'r: "?R' ! ?r = x" by simp
  have lens: "length ?S' = Suc ?r" "length ?C' = Suc ?r" "length ?R' = Suc ?r"
    using lS lC by simp_all
  have S'b: "bit_at (?S' ! k) i = (bit_at (S ! k) i \<noteq> (?b k \<and> bit_at x' i))"
    if "k < ?r" "i < n" for k i
    using that S'k [OF that(1)] lSk [OF that(1)] rx(1) k8 by (simp add: bit_at_xor_rows)
  have C'b: "bit_at (?C' ! k) i = (bit_at (C ! k) i \<noteq> (?b k \<and> bit_at c' i))"
    if "k < ?r" "i < n" for k i
    using that C'k [OF that(1)] lCk [OF that(1)] rx(2) k8 by (simp add: bit_at_xor_rows)
  have lS'k: "length (?S' ! k) = n div 8" if "k < Suc ?r" for k
    using that S'k [of k] S'r lSk [of k] rx(1) by (cases "k = ?r") (auto simp: length_xor_rows)
  have lC'k: "length (?C' ! k) = n div 8" if "k < Suc ?r" for k
    using that C'k [of k] C'r lCk [of k] rx(2) by (cases "k = ?r") (auto simp: length_xor_rows)
  have lR'k: "length (?R' ! k) = n div 8" if "k < Suc ?r" for k
    using that R'k [of k] R'r lRk [of k] lx by (cases "k = ?r") auto
  \<comment> \<open>the pivots of the new state\<close>
  have ld': "leading (?S' ! k) = Some (?piv k)" if k: "k < ?r" for k
  proof (rule leading_SomeI)
    show "?piv k < 8 * length (?S' ! k)" using lS'k [of k] k pk(1) [OF k] k8 by simp
    show "bit_at (?S' ! k) (?piv k)"
      using S'b [OF k pk(1) [OF k]] pk(2) [OF k] rx(5) [OF k] by simp
  next
    fix i assume i: "i < ?piv k"
    then have "i < n" using pk(1) [OF k] by simp
    have "\<not> bit_at x' i" if "?b k"
    proof -
      have "\<not> p < ?piv k" using pk(3) [OF k, of p] that by auto
      then have "i < p" using i by simp
      then show ?thesis by (rule lp(3))
    qed
    then show "\<not> bit_at (?S' ! k) i"
      using S'b [OF k \<open>i < n\<close>] pk(3) [OF k i] by auto
  qed
  have pv': "pivot_of (?S' ! k) = ?piv k" if "k < ?r" for k
    using ld' [OF that] by (rule pivot_of_Some)
  have pvr: "pivot_of (?S' ! ?r) = p" using S'r lead by (simp add: pivot_of_Some)
  \<comment> \<open>the echelon form\<close>
  have ech': "echelon n ?S'"
    unfolding echelon_def lens
  proof (intro conjI allI impI)
    fix a assume "a < Suc ?r"
    then show "length (?S' ! a) = n div 8" by (rule lS'k)
    show "leading (?S' ! a) \<noteq> None"
      using \<open>a < Suc ?r\<close> ld' [of a] S'r lead by (cases "a = ?r") auto
  next
    fix a b assume a: "a < Suc ?r" and b: "b < Suc ?r"
    show "bit_at (?S' ! b) (pivot_of (?S' ! a)) = (b = a)"
    proof (cases "a = ?r")
      case ar: True
      show ?thesis
      proof (cases "b = ?r")
        case True
        with ar show ?thesis using pvr S'r lp(2) by simp
      next
        case False
        then have "b < ?r" using b by simp
        from S'b [OF this lp(1)] show ?thesis using ar False pvr lp(2) by auto
      qed
    next
      case False
      then have a': "a < ?r" using a by simp
      show ?thesis
      proof (cases "b = ?r")
        case True
        with False show ?thesis using pv' [OF a'] S'r rx(5) [OF a'] by simp
      next
        case bf: False
        then have b': "b < ?r" using b by simp
        show ?thesis
          using S'b [OF b' pk(1) [OF a']] pv' [OF a'] cross [OF a' b'] rx(5) [OF a'] by simp
      qed
    qed
  qed
  \<comment> \<open>the new simplest rows are the combinations their coefficient vectors say\<close>
  have T: "par ?r (\<lambda>j. bit_at c' j \<and> bit_at (R ! j) i) = par ?r (\<lambda>k. ?A k \<and> bit_at (S ! k) i)"
    if i: "i < n" for i
  proof -
    have "par ?r (\<lambda>j. bit_at c' j \<and> bit_at (R ! j) i)
        = par ?r (\<lambda>j. par ?r (\<lambda>k. ?A k \<and> (bit_at (C ! k) j \<and> bit_at (R ! j) i)))"
    proof (rule par_cong)
      fix j assume j: "j < ?r"
      have "par ?r (\<lambda>k. ?A k \<and> (bit_at (C ! k) j \<and> bit_at (R ! j) i))
          = par ?r (\<lambda>k. (?A k \<and> bit_at (C ! k) j) \<and> bit_at (R ! j) i)"
        by (simp add: conj_assoc)
      also have "\<dots> = (par ?r (\<lambda>k. ?A k \<and> bit_at (C ! k) j) \<and> bit_at (R ! j) i)"
        by (rule par_and_right)
      finally show "(bit_at c' j \<and> bit_at (R ! j) i)
          = par ?r (\<lambda>k. ?A k \<and> (bit_at (C ! k) j \<and> bit_at (R ! j) i))"
        using c'lt [OF j] by simp
    qed
    also have "\<dots> = par ?r (\<lambda>k. par ?r (\<lambda>j. ?A k \<and> (bit_at (C ! k) j \<and> bit_at (R ! j) i)))"
      by (rule par_swap)
    also have "\<dots> = par ?r (\<lambda>k. ?A k \<and> bit_at (S ! k) i)"
      by (rule par_cong) (simp add: par_and_left invd i)
    finally show ?thesis .
  qed
  have d': "bit_at (?S' ! a) i = par (Suc ?r) (\<lambda>j. bit_at (?C' ! a) j \<and> bit_at (?R' ! j) i)"
    if a: "a < Suc ?r" and i: "i < n" for a i
  proof (cases "a = ?r")
    case True
    have "par (Suc ?r) (\<lambda>j. bit_at (?C' ! a) j \<and> bit_at (?R' ! j) i)
        = (par ?r (\<lambda>j. bit_at c' j \<and> bit_at (?R' ! j) i) \<noteq> (bit_at c' ?r \<and> bit_at x i))"
      using True C'r by (simp add: par_Suc)
    also have "par ?r (\<lambda>j. bit_at c' j \<and> bit_at (?R' ! j) i)
        = par ?r (\<lambda>j. bit_at c' j \<and> bit_at (R ! j) i)"
      by (rule par_cong) (simp add: R'k)
    finally show ?thesis using True S'r T [OF i] x'b [OF i] c'r by auto
  next
    case False
    then have a': "a < ?r" using a by simp
    have Cr: "bit_at (?C' ! a) ?r = ?b a"
      using C'b [OF a' rn] inve [OF a' rn] c'r by simp
    have "par ?r (\<lambda>j. bit_at (?C' ! a) j \<and> bit_at (?R' ! j) i)
        = par ?r (\<lambda>j. (bit_at (C ! a) j \<noteq> (?b a \<and> bit_at c' j)) \<and> bit_at (R ! j) i)"
      by (rule par_cong) (use C'b [OF a'] rn in \<open>simp add: R'k\<close>)
    also have "\<dots> = (par ?r (\<lambda>j. bit_at (C ! a) j \<and> bit_at (R ! j) i)
        \<noteq> (?b a \<and> par ?r (\<lambda>j. bit_at c' j \<and> bit_at (R ! j) i)))"
      by (rule par_distrib_and2)
    also have "\<dots> = (bit_at (S ! a) i \<noteq> (?b a \<and> par ?r (\<lambda>k. ?A k \<and> bit_at (S ! k) i)))"
      using invd [OF a' i] T [OF i] by simp
    finally have "par (Suc ?r) (\<lambda>j. bit_at (?C' ! a) j \<and> bit_at (?R' ! j) i)
        = ((bit_at (S ! a) i \<noteq> (?b a \<and> par ?r (\<lambda>k. ?A k \<and> bit_at (S ! k) i)))
           \<noteq> (?b a \<and> bit_at x i))"
      using Cr by (simp add: par_Suc)
    then show ?thesis using S'b [OF a' i] x'b [OF i] by auto
  qed
  \<comment> \<open>coefficient vectors stay within the accepted rows\<close>
  have e': "\<not> bit_at (?C' ! a) j" if a: "a < Suc ?r" and j: "j < n" "Suc ?r \<le> j" for a j
  proof (cases "a = ?r")
    case True
    then show ?thesis using C'r c'gt [OF j] by simp
  next
    case False
    then have a': "a < ?r" using a by simp
    show ?thesis using C'b [OF a' j(1)] inve [OF a' j(1)] c'gt [OF j] j(2) by simp
  qed
  \<comment> \<open>every raw row reduces to zero against the new simplest rows\<close>
  have red_new: "par (Suc ?r) (\<lambda>a. bit_at y (pivot_of (?S' ! a)) \<and> bit_at (?S' ! a) i)
      = ((par ?r (\<lambda>a. bit_at y (?piv a) \<and> bit_at (S ! a) i)
          \<noteq> (par ?r (\<lambda>a. bit_at y (?piv a) \<and> bit_at (S ! a) p) \<and> bit_at x' i))
         \<noteq> (bit_at y p \<and> bit_at x' i))" if i: "i < n" for y i
  proof -
    have "par ?r (\<lambda>a. bit_at y (pivot_of (?S' ! a)) \<and> bit_at (?S' ! a) i)
        = par ?r (\<lambda>a. bit_at y (?piv a) \<and> (bit_at (S ! a) i \<noteq> (?b a \<and> bit_at x' i)))"
      by (rule par_cong) (simp add: pv' S'b i)
    also have "\<dots> = (par ?r (\<lambda>a. bit_at y (?piv a) \<and> bit_at (S ! a) i)
          \<noteq> (par ?r (\<lambda>a. bit_at y (?piv a) \<and> ?b a) \<and> bit_at x' i))"
      by (rule par_distrib_and)
    finally show ?thesis using pvr S'r by (simp add: par_Suc)
  qed
  have f': "bit_at (?R' ! j) i
      = par (Suc ?r) (\<lambda>a. bit_at (?R' ! j) (pivot_of (?S' ! a)) \<and> bit_at (?S' ! a) i)"
    if j: "j < Suc ?r" and i: "i < n" for j i
  proof (cases "j = ?r")
    case True
    have "par ?r (\<lambda>a. ?A a \<and> bit_at (S ! a) i) = (bit_at x i \<noteq> bit_at x' i)"
      using x'b [OF i] by auto
    moreover have "par ?r (\<lambda>a. ?A a \<and> bit_at (S ! a) p) = (\<not> bit_at x p)"
      using x'b [OF lp(1)] lp(2) by auto
    ultimately show ?thesis using True R'r red_new [OF i, of x] by auto
  next
    case False
    then have j': "j < ?r" using j by simp
    show ?thesis
      using R'k [OF j'] red_new [OF i, of "R ! j"] invf [OF j' i] invf [OF j' lp(1)] by auto
  qed
  show ?thesis
    unfolding binv_def lens
    using n8 ech' lR'k lC'k d' e' f' by (intro conjI allI impI) simp_all
qed

section \<open>Add and feed keep the invariant\<close>

lemma builder_inv_New: "8 dvd k \<Longrightarrow> builder_inv (NewIncrementalMatrix k)"
  by (simp add: builder_inv_def NewIncrementalMatrix_def binv_empty)

lemma Add_wrong_width: "Row_Size x \<noteq> dim im \<Longrightarrow> Add im x = Inl WrongWidthPanic"
  by (simp add: Add_def)

lemma Add_inv:
  assumes inv: "builder_inv im" and w: "Row_Size x = dim im"
  shows "\<exists>im' ok. Add im x = Inr (im', ok) \<and> builder_inv im' \<and> dim im' = dim im
           \<and> ok = (leading (fst (reduce im x)) \<noteq> None)
           \<and> raw im' = (if ok then raw im @ [x] else raw im)
           \<and> (\<not> ok \<longrightarrow> im' = im)"
proof -
  obtain x' c' where red: "reduce im x = (x', c')" by fastforce
  have n8: "8 dvd dim im" using inv by (simp add: builder_inv_def binv_def)
  have lx: "length x = dim im div 8" using w by (auto simp: Row_Size_def)
  show ?thesis
  proof (cases "leading x'")
    case None
    then show ?thesis using inv w red by (auto simp: Add_def)
  next
    case (Some p)
    have "binv (dim im) (raw im @ [x])
            (map (\<lambda>s. if bit_at s p then xor_rows s x' else s) (simplest im) @ [x'])
            (map2 (\<lambda>s c. if bit_at s p then xor_rows c c' else c) (simplest im) (inverse_trk im)
              @ [c'])"
      by (rule binv_extend [OF _ lx _ Some])
        (use inv red in \<open>simp_all add: builder_inv_def reduce_def\<close>)
    then show ?thesis using w red Some by (auto simp: Add_def builder_inv_def)
  qed
qed

lemma feed_inv:
  "builder_inv im \<Longrightarrow> feed im rows = Inr (im', oks) \<Longrightarrow>
   builder_inv im' \<and> dim im' = dim im"
proof (induction rows arbitrary: im im' oks)
  case Nil
  then show ?case by simp
next
  case (Cons x rows)
  show ?case
  proof (cases "Row_Size x = dim im")
    case False
    with Cons.prems(2) show ?thesis by (simp add: Add_wrong_width)
  next
    case True
    from Add_inv [OF Cons.prems(1) True]
    obtain im1 ok where a: "Add im x = Inr (im1, ok)" "builder_inv im1" "dim im1 = dim im"
      by blast
    from Cons.prems(2) a(1) obtain oks1 where f: "feed im1 rows = Inr (im', oks1)"
      by (auto split: sum.splits)
    from Cons.IH [OF a(2) f] a(3) show ?thesis by simp
  qed
qed

section \<open>XOR-combinations of the accepted rows are rejected\<close>

lemma fold_xor_bits:
  assumes "\<And>j. j < length rows \<Longrightarrow> length (rows ! j) = k div 8"
  shows "m \<le> length rows \<Longrightarrow>
     length (fold (\<lambda>j acc. if sel j then xor_rows acc (rows ! j) else acc) [0..<m] (zero_row k))
       = k div 8
     \<and> (\<forall>i<8 * (k div 8).
          bit_at (fold (\<lambda>j acc. if sel j then xor_rows acc (rows ! j) else acc) [0..<m]
                    (zero_row k)) i
          = par m (\<lambda>j. sel j \<and> bit_at (rows ! j) i))"
proof (induction m)
  case 0
  show ?case by (simp add: length_zero_row bit_at_zero_row par_0)
next
  case (Suc m)
  let ?f = "\<lambda>j acc. if sel j then xor_rows acc (rows ! j) else acc"
  let ?y = "fold ?f [0..<m] (zero_row k)"
  have ih: "length ?y = k div 8"
    "\<forall>i<8 * (k div 8). bit_at ?y i = par m (\<lambda>j. sel j \<and> bit_at (rows ! j) i)"
    using Suc by simp_all
  have lm: "length (rows ! m) = k div 8" using assms Suc.prems by simp
  have step: "fold ?f [0..<Suc m] (zero_row k) = ?f m ?y" by simp
  show ?case
    unfolding step using ih lm
    by (auto simp: par_Suc length_xor_rows bit_at_xor_rows)
qed

lemma xor_comb_bits:
  assumes "\<And>j. j < length rows \<Longrightarrow> length (rows ! j) = k div 8"
  shows "length (xor_comb k sel rows) = k div 8"
    "\<And>i. i < 8 * (k div 8) \<Longrightarrow>
       bit_at (xor_comb k sel rows) i = par (length rows) (\<lambda>j. sel j \<and> bit_at (rows ! j) i)"
  using fold_xor_bits [OF assms, of "length rows" sel] by (simp_all add: xor_comb_def)

lemma builder_rejects_combination:
  assumes inv: "builder_inv im"
  shows "Add im (xor_comb (dim im) sel (raw im)) = Inr (im, False)"
proof -
  let ?n = "dim im" and ?R = "raw im" and ?S = "simplest im" and ?C = "inverse_trk im"
  let ?r = "length ?R"
  let ?x = "xor_comb ?n sel ?R"
  let ?piv = "\<lambda>k. pivot_of (?S ! k)"
  have b: "binv ?n ?R ?S ?C" using inv by (simp add: builder_inv_def)
  have n8: "8 dvd ?n" and lS: "length ?S = ?r" and ech: "echelon ?n ?S"
    using b by (simp_all add: binv_def)
  have k8: "8 * (?n div 8) = ?n" using n8 by simp
  have lR: "length (?R ! j) = ?n div 8" if "j < ?r" for j using b that by (simp add: binv_def)
  have invf: "bit_at (?R ! j) i = par ?r (\<lambda>a. bit_at (?R ! j) (?piv a) \<and> bit_at (?S ! a) i)"
    if "j < ?r" "i < ?n" for j i using b that by (simp add: binv_def)
  have lx: "length ?x = ?n div 8" by (rule xor_comb_bits(1)) (rule lR)
  have xb: "bit_at ?x i = par ?r (\<lambda>j. sel j \<and> bit_at (?R ! j) i)" if "i < ?n" for i
    using xor_comb_bits(2) [of ?R ?n i sel] lR that k8 by simp
  have w: "Row_Size ?x = ?n" using lx k8 by (simp add: Row_Size_def)
  obtain x' c' where red: "reduce im ?x = (x', c')" by fastforce
  then have red': "reduce_cols ?S ?C [0..<?n] (?x, unit_row ?n ?r) = (x', c')"
    by (simp add: reduce_def)
  note rx = binv_reduce [OF b lx red']
  have pn: "?piv k < ?n" if "k < ?r" for k
  proof -
    have "leading (?S ! k) \<noteq> None" "length (?S ! k) = ?n div 8"
      using ech that lS by (simp_all add: echelon_def)
    then show ?thesis using pivot_of_props(2) [of "?S ! k"] k8 by simp
  qed
  have zero: "\<not> bit_at x' i" if i: "i < ?n" for i
  proof -
    have "bit_at ?x i = par ?r (\<lambda>j. sel j \<and> par ?r (\<lambda>a. bit_at (?R ! j) (?piv a) \<and> bit_at (?S ! a) i))"
      unfolding xb [OF i] by (rule par_cong) (simp add: invf i)
    also have "\<dots> = par ?r (\<lambda>j. par ?r (\<lambda>a. sel j \<and> bit_at (?R ! j) (?piv a) \<and> bit_at (?S ! a) i))"
      by (simp add: par_and_left)
    also have "\<dots> = par ?r (\<lambda>a. par ?r (\<lambda>j. sel j \<and> bit_at (?R ! j) (?piv a) \<and> bit_at (?S ! a) i))"
      by (rule par_swap)
    also have "\<dots> = par ?r (\<lambda>a. bit_at ?x (?piv a) \<and> bit_at (?S ! a) i)"
    proof (rule par_cong)
      fix a assume a: "a < ?r"
      have "par ?r (\<lambda>j. sel j \<and> bit_at (?R ! j) (?piv a) \<and> bit_at (?S ! a) i)
          = par ?r (\<lambda>j. (sel j \<and> bit_at (?R ! j) (?piv a)) \<and> bit_at (?S ! a) i)"
        by (simp add: conj_assoc)
      also have "\<dots> = (par ?r (\<lambda>j. sel j \<and> bit_at (?R ! j) (?piv a)) \<and> bit_at (?S ! a) i)"
        by (rule par_and_right)
      finally show "par ?r (\<lambda>j. sel j \<and> bit_at (?R ! j) (?piv a) \<and> bit_at (?S ! a) i)
          = (bit_at ?x (?piv a) \<and> bit_at (?S ! a) i)"
        using xb [OF pn [OF a]] by simp
    qed
    finally show ?thesis using rx(3) [OF i] by simp
  qed
  have "leading x' = None"
    unfolding leading_None using zero rx(1) k8 by simp
  then show ?thesis using w red by (simp add: Add_def)
qed

text \<open>
  C9. In a builder reached from the empty builder of a dimension that is a multiple of
  8, \<open>Add\<close> of any XOR-combination of the rows accepted so far answers false and
  returns the builder exactly as it was: the same dimension, raw rows, simplest rows and
  inverse-tracking rows, hence the same \<open>Len\<close>.
\<close>

theorem Add_rejects_combination:
  assumes "8 dvd k" and "feed (NewIncrementalMatrix k) rows = Inr (im, oks)"
  shows "Add im (xor_comb k sel (raw im)) = Inr (im, False)"
proof -
  have "builder_inv im \<and> dim im = dim (NewIncrementalMatrix k)"
    by (rule feed_inv [OF builder_inv_New [OF assms(1)] assms(2)])
  then have "builder_inv im" "dim im = k" by (simp_all add: NewIncrementalMatrix_def)
  then show ?thesis using builder_rejects_combination [of im sel] by simp
qed


section \<open>Feeding the rows of an invertible matrix\<close>

lemma par_trunc:
  "m \<le> n \<Longrightarrow> (\<And>j. m \<le> j \<Longrightarrow> j < n \<Longrightarrow> \<not> Q j) \<Longrightarrow> par n Q = par m Q"
proof (induction n)
  case 0
  then show ?case by simp
next
  case (Suc n)
  show ?case
  proof (cases "m = Suc n")
    case True
    then show ?thesis by simp
  next
    case False
    then have "m \<le> n" using Suc.prems(1) by simp
    moreover have "\<not> Q n" using Suc.prems(2) [of n] \<open>m \<le> n\<close> by simp
    ultimately show ?thesis using Suc.IH Suc.prems(2) by (simp add: par_Suc)
  qed
qed

lemma par_swap_and:
  "par m (\<lambda>a. P a \<and> par l (\<lambda>b. Q a b \<and> W b)) = par l (\<lambda>b. par m (\<lambda>a. P a \<and> Q a b) \<and> W b)"
proof -
  have "par m (\<lambda>a. P a \<and> par l (\<lambda>b. Q a b \<and> W b))
      = par m (\<lambda>a. par l (\<lambda>b. (P a \<and> Q a b) \<and> W b))"
    by (simp add: par_and_left conj_assoc)
  also have "\<dots> = par l (\<lambda>b. par m (\<lambda>a. (P a \<and> Q a b) \<and> W b))"
    by (rule par_swap)
  also have "\<dots> = par l (\<lambda>b. par m (\<lambda>a. P a \<and> Q a b) \<and> W b)"
    by (simp only: par_and_right)
  finally show ?thesis .
qed

lemma dotb_unit_right:
  assumes "length a = k div 8" "i < 8 * (k div 8)"
  shows "dotb a (unit_row k i) = bit_at a i"
proof -
  have "dotb a (unit_row k i) = par (8 * (k div 8)) (\<lambda>j. j = i \<and> bit_at a j)"
    unfolding dotb_par assms(1)
    by (rule par_cong) (use assms(2) in \<open>auto simp: bit_at_unit_row\<close>)
  then show ?thesis using assms(2) by (simp add: par_single)
qed

lemma wf_mat_mulv:
  assumes "wf_mat n M" "i < n"
  shows "bit_at (mulv M v) i = par n (\<lambda>j. bit_at (M ! i) j \<and> bit_at v j)"
proof -
  have "8 * (length M div 8) = n" "8 * length (M ! i) = n"
    using assms by (simp_all add: wf_mat_def)
  then show ?thesis using assms(2) by (simp add: bit_at_mulv dotb_par)
qed

lemma rows_independent:
  assumes ip: "inverse_pair M N"
    and zero: "\<And>i. i < length M \<Longrightarrow> \<not> par (length M) (\<lambda>j. e j \<and> bit_at (M ! j) i)"
    and j0: "j0 < length M"
  shows "\<not> e j0"
proof
  assume e: "e j0"
  let ?n = "length M"
  have wfM: "wf_mat ?n M" using ip by (simp add: inverse_pair_def)
  have k8: "8 * (?n div 8) = ?n" using wfM by (simp add: wf_mat_def)
  let ?u = "unit_row ?n j0"
  let ?w = "mulv N ?u"
  have lu: "length ?u = ?n div 8" by (rule length_unit_row)
  have r: "mulv M ?w = ?u" using ip lu by (simp add: inverse_pair_def)
  have d: "par ?n (\<lambda>i. bit_at (M ! j) i \<and> bit_at ?w i) = (j0 = j)" if "j < ?n" for j
    using wf_mat_mulv [OF wfM that, of ?w] r bit_at_unit_row [of j0 ?n j] j0 that k8 by simp
  have "par ?n (\<lambda>j. e j \<and> par ?n (\<lambda>i. bit_at (M ! j) i \<and> bit_at ?w i))
      = par ?n (\<lambda>j. j = j0 \<and> e j)"
    by (rule par_cong) (use d in auto)
  also have "\<dots> = True" using e j0 by (simp add: par_single)
  finally have one: "par ?n (\<lambda>j. e j \<and> par ?n (\<lambda>i. bit_at (M ! j) i \<and> bit_at ?w i))" by simp
  have "par ?n (\<lambda>j. e j \<and> par ?n (\<lambda>i. bit_at (M ! j) i \<and> bit_at ?w i))
      = par ?n (\<lambda>i. par ?n (\<lambda>j. e j \<and> bit_at (M ! j) i) \<and> bit_at ?w i)"
    by (rule par_swap_and)
  also have "\<dots> = par ?n (\<lambda>i. False)"
    by (rule par_cong) (use zero in simp)
  finally show False using one by (simp add: par_False)
qed

lemma invertible_rows_accepted:
  assumes ip: "inverse_pair M N"
    and b: "builder_inv im" and dm: "dim im = length M"
    and raw: "raw im = take r M" and r: "r < length M"
  shows "leading (fst (reduce im (M ! r))) \<noteq> None"
proof
  let ?n = "length M" and ?S = "simplest im" and ?C = "inverse_trk im"
  let ?x = "M ! r"
  let ?A = "\<lambda>k. bit_at ?x (pivot_of (?S ! k))"
  assume none: "leading (fst (reduce im ?x)) = None"
  have wfM: "wf_mat ?n M" using ip by (simp add: inverse_pair_def)
  have k8: "8 * (?n div 8) = ?n" using wfM by (simp add: wf_mat_def)
  have lx: "length ?x = ?n div 8" using wfM r by (simp add: wf_mat_def)
  have lr: "length (raw im) = r" using raw r by simp
  have bi: "binv ?n (take r M) ?S ?C" using b dm raw by (simp add: builder_inv_def)
  have invd: "bit_at (?S ! a) i = par r (\<lambda>j. bit_at (?C ! a) j \<and> bit_at (M ! j) i)"
    if "a < r" "i < ?n" for a i
  proof -
    have "bit_at (?S ! a) i = par r (\<lambda>j. bit_at (?C ! a) j \<and> bit_at (take r M ! j) i)"
      using bi that lr raw by (simp add: binv_def)
    also have "\<dots> = par r (\<lambda>j. bit_at (?C ! a) j \<and> bit_at (M ! j) i)"
      by (rule par_cong) simp
    finally show ?thesis .
  qed
  obtain x' c' where red: "reduce im ?x = (x', c')" by fastforce
  then have red': "reduce_cols ?S ?C [0..<?n] (?x, unit_row ?n (length (take r M))) = (x', c')"
    using dm raw by (simp add: reduce_def)
  note rx = binv_reduce [OF bi lx red']
  have z: "\<not> bit_at x' i" if "i < ?n" for i
    using none red rx(1) that k8 by (simp add: leading_None)
  have xb: "bit_at ?x i = par r (\<lambda>k. ?A k \<and> bit_at (?S ! k) i)" if "i < ?n" for i
    using rx(3) [OF that] z [OF that] lr raw by simp
  let ?d = "\<lambda>j. par r (\<lambda>k. ?A k \<and> bit_at (?C ! k) j)"
  let ?e = "\<lambda>j. j = r \<or> (j < r \<and> ?d j)"
  have comb: "bit_at ?x i = par r (\<lambda>j. ?d j \<and> bit_at (M ! j) i)" if i: "i < ?n" for i
  proof -
    have "bit_at ?x i = par r (\<lambda>k. ?A k \<and> par r (\<lambda>j. bit_at (?C ! k) j \<and> bit_at (M ! j) i))"
      unfolding xb [OF i] by (rule par_cong) (simp add: invd i)
    also have "\<dots> = par r (\<lambda>j. ?d j \<and> bit_at (M ! j) i)"
      by (rule par_swap_and)
    finally show ?thesis .
  qed
  have "\<not> par ?n (\<lambda>j. ?e j \<and> bit_at (M ! j) i)" if i: "i < ?n" for i
  proof -
    have "par ?n (\<lambda>j. ?e j \<and> bit_at (M ! j) i) = par (Suc r) (\<lambda>j. ?e j \<and> bit_at (M ! j) i)"
      by (rule par_trunc) (use r in auto)
    also have "\<dots> = (par r (\<lambda>j. ?e j \<and> bit_at (M ! j) i) \<noteq> bit_at ?x i)"
      by (simp add: par_Suc)
    also have "par r (\<lambda>j. ?e j \<and> bit_at (M ! j) i) = par r (\<lambda>j. ?d j \<and> bit_at (M ! j) i)"
      by (rule par_cong) simp
    finally show ?thesis using comb [OF i] by simp
  qed
  from rows_independent [OF ip this r] show False by simp
qed

lemma feed_snoc:
  "feed im (rows @ [x]) =
     (case feed im rows of
        Inl err \<Rightarrow> Inl err
      | Inr (im', oks) \<Rightarrow>
          (case Add im' x of
             Inl err \<Rightarrow> Inl err
           | Inr (im'', ok) \<Rightarrow> Inr (im'', oks @ [ok])))"
  by (induction rows arbitrary: im) (auto split: sum.splits)

lemma feed_invertible_prefix:
  assumes ip: "inverse_pair M N"
  shows "r \<le> length M \<Longrightarrow>
     \<exists>im. feed (NewIncrementalMatrix (length M)) (take r M) = Inr (im, replicate r True)
       \<and> builder_inv im \<and> dim im = length M \<and> raw im = take r M"
proof (induction r)
  case 0
  have "8 dvd length M" using ip by (simp add: inverse_pair_def wf_mat_def)
  then show ?case
    using builder_inv_New [of "length M"] by (simp add: NewIncrementalMatrix_def)
next
  case (Suc r)
  let ?n = "length M"
  have r: "r < ?n" using Suc.prems by simp
  from Suc.IH r obtain im where
    im: "feed (NewIncrementalMatrix ?n) (take r M) = Inr (im, replicate r True)"
      "builder_inv im" "dim im = ?n" "raw im = take r M"
    by auto
  have wfM: "wf_mat ?n M" using ip by (simp add: inverse_pair_def)
  have w: "Row_Size (M ! r) = dim im"
    using wfM r im(3) by (simp add: wf_mat_def Row_Size_def)
  from Add_inv [OF im(2) w] obtain im' ok where
    a: "Add im (M ! r) = Inr (im', ok)" "builder_inv im'" "dim im' = dim im"
      "ok = (leading (fst (reduce im (M ! r))) \<noteq> None)"
      "raw im' = (if ok then raw im @ [M ! r] else raw im)"
    by blast
  have ok: ok
    using a(4) invertible_rows_accepted [OF ip im(2,3,4) r] by simp
  have t: "take (Suc r) M = take r M @ [M ! r]"
    using r by (simp add: take_Suc_conv_app_nth)
  have "feed (NewIncrementalMatrix ?n) (take (Suc r) M) = Inr (im', replicate r True @ [True])"
    unfolding t feed_snoc using im(1) a(1) ok by simp
  moreover have "replicate r True @ [True] = replicate (Suc r) True"
    by (simp add: replicate_append_same)
  ultimately show ?case using a(2,3,5) ok im(3,4) t by auto
qed

lemma full_builder_inverse:
  assumes ip: "inverse_pair M N"
    and b: "builder_inv im" and dm: "dim im = length M" and raw: "raw im = M"
  shows "Inverse_of im = N"
proof -
  let ?n = "length M" and ?S = "simplest im" and ?C = "inverse_trk im"
  let ?piv = "\<lambda>k. pivot_of (?S ! k)"
  let ?B = "Inverse_of im"
  have wfM: "wf_mat ?n M" using ip by (simp add: inverse_pair_def)
  have n8: "8 dvd ?n" and k8: "8 * (?n div 8) = ?n" using wfM by (simp_all add: wf_mat_def)
  have bi: "binv ?n M ?S ?C" using b dm raw by (simp add: builder_inv_def)
  have lS: "length ?S = ?n" and lC: "length ?C = ?n" and ech: "echelon ?n ?S"
    using bi by (simp_all add: binv_def)
  have lCk: "length (?C ! k) = ?n div 8" if "k < ?n" for k using bi that by (simp add: binv_def)
  have invd: "bit_at (?S ! a) i = par ?n (\<lambda>j. bit_at (?C ! a) j \<and> bit_at (M ! j) i)"
    if "a < ?n" "i < ?n" for a i using bi that by (simp add: binv_def)
  have pn: "?piv k < ?n" if "k < ?n" for k
  proof -
    have "leading (?S ! k) \<noteq> None" "length (?S ! k) = ?n div 8"
      using ech that lS by (simp_all add: echelon_def)
    then show ?thesis using pivot_of_props(2) [of "?S ! k"] k8 by simp
  qed
  \<comment> \<open>every column is a pivot\<close>
  have inj: "inj_on ?piv {..<?n}"
    by (rule inj_onI) (use echelon_pivot_inj [OF ech] lS in auto)
  have "?piv ` {..<?n} \<subseteq> {..<?n}" using pn by auto
  then have surj: "?piv ` {..<?n} = {..<?n}"
    using inj by (simp add: endo_inj_surj)
  have ex: "\<exists>k<?n. ?piv k = p" if "p < ?n" for p
  proof -
    have "p \<in> ?piv ` {..<?n}" using surj that by simp
    then show ?thesis by auto
  qed
  have unitS: "bit_at (?S ! k) i = (i = ?piv k)" if k: "k < ?n" and i: "i < ?n" for k i
  proof -
    from ex [OF i] obtain k' where k': "k' < ?n" "?piv k' = i" by auto
    have "bit_at (?S ! k) (?piv k') = (k = k')"
      using ech k k'(1) lS by (simp add: echelon_def)
    moreover have "(k = k') = (?piv k = ?piv k')"
      using echelon_pivot_inj [OF ech, of k k'] k k' lS by auto
    ultimately show ?thesis using k'(2) by auto
  qed
  have Bp: "?B ! ?piv k = ?C ! k" if k: "k < ?n" for k
    using pivot_row_Some [OF ech, of k] k lS pn [OF k] dm by (simp add: Inverse_of_def)
  have lB: "length ?B = ?n" using dm by (simp add: Inverse_of_def)
  have lBp: "length (?B ! p) = ?n div 8" if "p < ?n" for p
  proof -
    from ex [OF that] obtain k where "k < ?n" "?piv k = p" by auto
    then show ?thesis using Bp [of k] lCk [of k] by simp
  qed
  have wfB: "wf_mat ?n ?B"
    by (rule wf_mat_nthI) (use n8 lB lBp in auto)
  \<comment> \<open>the derived matrix is a left inverse\<close>
  have left: "mulv ?B (mulv M v) = v" if v: "length v = ?n div 8" for v
  proof (rule Row_ext)
    show "length (mulv ?B (mulv M v)) = length v" using lB v by (simp add: length_mulv)
  next
    fix p assume "p < 8 * length (mulv ?B (mulv M v))"
    then have p: "p < ?n" using lB k8 by (simp add: length_mulv)
    from ex [OF p] obtain k where k: "k < ?n" "?piv k = p" by auto
    have "bit_at (mulv ?B (mulv M v)) p = par ?n (\<lambda>j. bit_at (?C ! k) j \<and> bit_at (mulv M v) j)"
      using wf_mat_mulv [OF wfB p, of "mulv M v"] Bp [OF k(1)] k(2) by simp
    also have "\<dots> = par ?n (\<lambda>j. bit_at (?C ! k) j
                          \<and> par ?n (\<lambda>i. bit_at (M ! j) i \<and> bit_at v i))"
      by (rule par_cong) (simp add: wf_mat_mulv [OF wfM])
    also have "\<dots> = par ?n (\<lambda>i. par ?n (\<lambda>j. bit_at (?C ! k) j \<and> bit_at (M ! j) i)
                          \<and> bit_at v i)"
      by (rule par_swap_and)
    also have "\<dots> = par ?n (\<lambda>i. i = p \<and> bit_at v i)"
      by (rule par_cong) (use invd [OF k(1)] unitS [OF k(1)] k(2) in auto)
    also have "\<dots> = bit_at v p" using p by (simp add: par_single)
    finally show "bit_at (mulv ?B (mulv M v)) p = bit_at v p" .
  qed
  have wfN: "wf_mat ?n N" using ip by (simp add: inverse_pair_def)
  have lN: "length N = ?n" using wfN by (simp add: wf_mat_def)
  have agree: "mulv ?B w = mulv N w" if w: "length w = ?n div 8" for w
  proof -
    have "length (mulv N w) = ?n div 8" using lN by (simp add: length_mulv)
    from left [OF this] show ?thesis
      using ip w by (simp add: inverse_pair_def)
  qed
  show ?thesis
  proof (rule nth_equalityI)
    show "length ?B = length N" using lB lN by simp
  next
    fix p assume "p < length ?B"
    then have p: "p < ?n" using lB by simp
    show "?B ! p = N ! p"
    proof (rule Row_ext)
      show "length (?B ! p) = length (N ! p)"
        using lBp [OF p] wfN p by (simp add: wf_mat_def)
    next
      fix i assume "i < 8 * length (?B ! p)"
      then have i: "i < ?n" using lBp [OF p] k8 by simp
      let ?u = "unit_row ?n i"
      have lNp: "length (N ! p) = ?n div 8" using wfN p by (simp add: wf_mat_def)
      have "bit_at (?B ! p) i = dotb (?B ! p) ?u"
        using dotb_unit_right [OF lBp [OF p], of i] i k8 by simp
      also have "\<dots> = bit_at (mulv ?B ?u) p"
        using p lB k8 by (simp add: bit_at_mulv)
      also have "\<dots> = bit_at (mulv N ?u) p"
        using agree [of ?u] by (simp add: length_unit_row)
      also have "\<dots> = dotb (N ! p) ?u"
        using p lN k8 by (simp add: bit_at_mulv)
      also have "\<dots> = bit_at (N ! p) i"
        using dotb_unit_right [OF lNp, of i] i k8 by simp
      finally show "bit_at (?B ! p) i = bit_at (N ! p) i" .
    qed
  qed
qed

text \<open>
  For every square matrix \<open>M\<close> with a two-sided inverse \<open>N\<close>, feeding the rows of
  \<open>M\<close> in order to a fresh builder of dimension \<open>length M\<close> makes every \<open>Add\<close>
  answer true; the builder is then fully defined, \<open>Matrix()\<close> is \<open>M\<close> and
  \<open>Inverse()\<close> is \<open>N\<close>. When \<open>Invert\<close> succeeds on \<open>M\<close>, its result is such an
  \<open>N\<close>.
\<close>

lemma builder_matches_inverse:
  assumes "inverse_pair M N"
  shows "\<exists>im. feed (NewIncrementalMatrix (length M)) M = Inr (im, replicate (length M) True)
           \<and> FullyDefined im \<and> Matrix_of im = M \<and> Inverse_of im = N"
proof -
  from feed_invertible_prefix [OF assms, of "length M"] obtain im where
    im: "feed (NewIncrementalMatrix (length M)) M = Inr (im, replicate (length M) True)"
      "builder_inv im" "dim im = length M" "raw im = M"
    by auto
  have "Inverse_of im = N" by (rule full_builder_inverse [OF assms im(2,3,4)])
  then show ?thesis using im by (auto simp: FullyDefined_def Len_def Matrix_of_def)
qed

lemma Invert_inverse_pair:
  assumes "Invert M = Inr (N, True)" and "\<forall>r\<in>set M. length r = length (hd M)"
  shows "inverse_pair M N"
  unfolding inverse_pair_def
proof (intro conjI allI impI)
  show "wf_mat (length M) M" using Invert_shapes [OF assms] by simp
  show "wf_mat (length M) N"
    using Invert_left_inverse [OF assms, of "zero_row (length M)"] by (simp add: length_zero_row)
next
  fix v :: Row assume v: "length v = length M div 8"
  show "mulv N (mulv M v) = v" using Invert_left_inverse [OF assms v] by simp
  show "mulv M (mulv N v) = v" by (rule Invert_right_inverse [OF assms v])
qed

lemma incremental_matches_Invert:
  assumes "Invert M = Inr (N, True)" and "\<forall>r\<in>set M. length r = length (hd M)"
  shows "\<exists>im. feed (NewIncrementalMatrix (length M)) M = Inr (im, replicate (length M) True)
           \<and> FullyDefined im \<and> Matrix_of im = M \<and> Inverse_of im = N"
  by (rule builder_matches_inverse [OF Invert_inverse_pair [OF assms]])

theorem Add_rejects_combination_witness:
  "feed (NewIncrementalMatrix 8) [[1], [3], [2], [0x14]]
     = Inr (\<lparr>dim = 8, raw = [[1], [3], [20]], simplest = [[1], [2], [20]],
             inverse_trk = [[1], [3], [4]]\<rparr>, [True, True, False, True])
   \<and> xor_comb 8 (\<lambda>j. 0 < j) [[1], [3], [20]] = [23]
   \<and> Add \<lparr>dim = 8, raw = [[1], [3], [20]], simplest = [[1], [2], [20]],
           inverse_trk = [[1], [3], [4]]\<rparr> [23]
     = Inr (\<lparr>dim = 8, raw = [[1], [3], [20]], simplest = [[1], [2], [20]],
             inverse_trk = [[1], [3], [4]]\<rparr>, False)"
proof -
  let ?im = "\<lparr>dim = 8, raw = [[1], [3], [20]], simplest = [[1], [2], [20]],
              inverse_trk = [[1], [3], [4]]\<rparr>"
  have f: "feed (NewIncrementalMatrix 8) [[1], [3], [2], [0x14]]
             = Inr (?im, [True, True, False, True])"
    by code_simp
  have x: "xor_comb 8 (\<lambda>j. 0 < j) [[1], [3], [20]] = [23]"
    by code_simp
  have "(8 :: nat) dvd 8" by simp
  from Add_rejects_combination [OF this f, of "\<lambda>j. 0 < j"] f x
  show ?thesis by simp
qed

lemma incremental_matches_Invert_example:
  "Invert [[3], [2], [5], [8], [16], [32], [64], [128]]
     = Inr ([[3], [2], [7], [8], [16], [32], [64], [128]], True)
   \<and> feed (NewIncrementalMatrix 8) [[3], [2], [5], [8], [16], [32], [64], [128]]
     = Inr (\<lparr>dim = 8, raw = [[3], [2], [5], [8], [16], [32], [64], [128]],
             simplest = [[1], [2], [4], [8], [16], [32], [64], [128]],
             inverse_trk = [[3], [2], [7], [8], [16], [32], [64], [128]]\<rparr>,
            [True, True, True, True, True, True, True, True])
   \<and> FullyDefined \<lparr>dim = 8, raw = [[3], [2], [5], [8], [16], [32], [64], [128]],
             simplest = [[1], [2], [4], [8], [16], [32], [64], [128]],
             inverse_trk = [[3], [2], [7], [8], [16], [32], [64], [128]]\<rparr>
   \<and> Inverse_of \<lparr>dim = 8, raw = [[3], [2], [5], [8], [16], [32], [64], [128]],
             simplest = [[1], [2], [4], [8], [16], [32], [64], [128]],
             inverse_trk = [[3], [2], [7], [8], [16], [32], [64], [128]]\<rparr>
     = [[3], [2], [7], [8], [16], [32], [64], [128]]"
proof -
  let ?M = "[[3], [2], [5], [8], [16], [32], [64], [128]] :: Matrix"
  let ?N = "[[3], [2], [7], [8], [16], [32], [64], [128]] :: Matrix"
  let ?im = "\<lparr>dim = 8, raw = ?M, simplest = [[1], [2], [4], [8], [16], [32], [64], [128]],
              inverse_trk = ?N\<rparr>"
  have i: "Invert ?M = Inr (?N, True)"
    by code_simp
  have f: "feed (NewIncrementalMatrix 8) ?M
             = Inr (?im, [True, True, True, True, True, True, True, True])"
    by code_simp
  have s: "\<forall>r\<in>set ?M. length r = length (hd ?M)" by simp
  from incremental_matches_Invert [OF i s] obtain im where
    im: "feed (NewIncrementalMatrix (length ?M)) ?M = Inr (im, replicate (length ?M) True)"
      "FullyDefined im" "Inverse_of im = ?N"
    by blast
  have l: "length ?M = 8" by simp
  have "feed (NewIncrementalMatrix 8) ?M = Inr (im, replicate 8 True)"
    using im(1) unfolding l .
  then have "Inr (im, replicate 8 True)
      = (Inr (?im, [True, True, True, True, True, True, True, True])
          :: error + IncrementalMatrix \<times> bool list)"
    unfolding f by (rule sym)
  then have "im = ?im" by simp
  then show ?thesis using i f im(2,3) by simp
qed

section \<open>An invertible matrix that inversion reports singular\<close>

lemma length_swapped_identity: "length swapped_identity = 256"
  by (simp add: swapped_identity_def length_ident)

lemma nth_swapped_identity:
  "i < 256 \<Longrightarrow>
   swapped_identity ! i
     = unit_row 256 (if i = 254 then 255 else if i = 255 then 254 else i)"
  by (simp add: swapped_identity_def length_ident nth_ident nth_list_update)

lemma wf_swapped_identity: "wf_mat 256 swapped_identity"
  by (rule wf_mat_nthI)
    (simp_all add: length_swapped_identity nth_swapped_identity length_unit_row)

lemma bit_at_swapped_identity:
  "i < 256 \<Longrightarrow> j < 256 \<Longrightarrow>
   bit_at (swapped_identity ! i) j
     = ((if i = 254 then 255 else if i = 255 then 254 else i) = j)"
  by (simp add: nth_swapped_identity bit_at_unit_row)

lemma Invert_loop_swapped_identity:
  "row \<le> 254 \<Longrightarrow> f = swapped_identity \<Longrightarrow> a = 256 \<Longrightarrow>
   Invert_loop f out a row = Inr (out, False)"
proof (induction f out a row rule: Invert_loop.induct)
  case (1 f out a row)
  have ra: "row < a" using "1.prems" by simp
  have len: "8 * length (f ! j) = 256" if "j < 256" for j
    using that "1.prems" by (simp add: nth_swapped_identity length_unit_row)
  have bits: "bit_at (f ! i) j = ((if i = 254 then 255 else if i = 255 then 254 else i) = j)"
    if "i < 256" "j < 256" for i j
    using that "1.prems" by (simp add: bit_at_swapped_identity)
  show ?case
  proof (cases "row = 254")
    case True
    have g1: "GetBit (f ! 254) 254 = Inr 0"
      using len [of 254] bits [of 254 254] by (simp add: GetBit_eq)
    have g2: "GetBit (f ! 255) 254 = Inr 1"
      using len [of 255] bits [of 255 254] by (simp add: GetBit_eq)
    have "find_cand f 254 256 255 255 = Inr 255"
      using g2 by (subst find_cand.simps) simp
    then have "find_cand f 254 256 254 255 = Inr 255"
      using g1 by (subst find_cand.simps) simp
    then show ?thesis using True "1.prems" by (subst Invert_loop.simps) simp
  next
    case False
    then have r: "row < 254" using "1.prems" by simp
    have g: "GetBit (f ! row) row = Inr 1"
      using len [of row] bits [of row row] r by (simp add: GetBit_eq)
    have fc: "find_cand f row a row 255 = Inr row"
      using ra g by (subst find_cand.simps) simp
    have n255: "row \<noteq> 255" using r by simp
    have "cancel_loop f out a row 0 = Inr (f, out)"
    proof (rule cancel_loop_noop, intro allI impI)
      fix j assume "j < a" "j \<noteq> row"
      then show "row < 8 * length (f ! j) \<and> \<not> bit_at (f ! j) row"
        using len [of j] bits [of j row] r "1.prems" by auto
    qed
    then have cl: "cancel_loop (f[row := f ! row, row := f ! row])
                (out[row := out ! row, row := out ! row]) a row 0 = Inr (f, out)"
      by simp
    have "Invert_loop f out a (row + 1) = Inr (out, False)"
      using "1.IH" [OF ra fc n255 cl refl] r "1.prems" by simp
    then show ?thesis using ra fc n255 cl by (subst Invert_loop.simps) simp
  qed
qed

lemma Matrix_Size_nonempty:
  "e \<noteq> [] \<Longrightarrow> Matrix_Size e = Inr (length e, Row_Size (e ! 0))"
  by (cases e) (simp_all add: Matrix_Size_def)

lemma Invert_swapped_identity: "Invert swapped_identity = Inr (ident 256, False)"
proof -
  have ne: "swapped_identity \<noteq> []" using length_swapped_identity by auto
  have "Matrix_Size swapped_identity = Inr (256, 256)"
    using Matrix_Size_nonempty [OF ne]
    by (simp add: length_swapped_identity nth_swapped_identity Row_Size_def length_unit_row)
  moreover have "GenerateIdentity 256 = Inr (ident 256)" by (simp add: GenerateIdentity_eq)
  moreover have "Invert_loop swapped_identity (ident 256) 256 0 = Inr (ident 256, False)"
    by (rule Invert_loop_swapped_identity) simp_all
  ultimately show ?thesis by (simp add: Invert_def)
qed

lemma mulv_swapped_identity:
  assumes "i < 256"
  shows "bit_at (mulv swapped_identity v) i
         = bit_at v (if i = 254 then 255 else if i = 255 then 254 else i)"
  using assms
  by (simp add: bit_at_mulv length_swapped_identity nth_swapped_identity dotb_unit)

lemma swapped_identity_inverse_pair: "inverse_pair swapped_identity swapped_identity"
  unfolding inverse_pair_def
proof (intro conjI allI impI)
  show "wf_mat (length swapped_identity) swapped_identity"
    using wf_swapped_identity by (simp add: length_swapped_identity)
  then show "wf_mat (length swapped_identity) swapped_identity" .
next
  fix v :: Row assume v: "length v = length swapped_identity div 8"
  show twice: "mulv swapped_identity (mulv swapped_identity v) = v"
  proof (rule Row_ext)
    show "length (mulv swapped_identity (mulv swapped_identity v)) = length v"
      using v by (simp add: length_mulv)
  next
    fix i assume "i < 8 * length (mulv swapped_identity (mulv swapped_identity v))"
    then have i: "i < 256" by (simp add: length_mulv length_swapped_identity)
    show "bit_at (mulv swapped_identity (mulv swapped_identity v)) i = bit_at v i"
      using i by (simp add: mulv_swapped_identity)
  qed
  show "mulv swapped_identity (mulv swapped_identity v) = v" by (rule twice)
qed

lemma swapped_identity_not_ident: "swapped_identity \<noteq> ident 256"
proof
  assume "swapped_identity = ident 256"
  then have "swapped_identity ! 254 = ident 256 ! 254" by simp
  then have "unit_row 256 255 = unit_row 256 254"
    by (simp add: nth_swapped_identity nth_ident)
  then have "bit_at (unit_row 256 255) 254 = bit_at (unit_row 256 254) 254" by simp
  then show False by (simp add: bit_at_unit_row)
qed

text \<open>
  C4. The 256 by 256 identity with its last two rows exchanged is invertible (it is its
  own inverse, lemma \<open>swapped_identity_inverse_pair\<close>). Fed row by row to a fresh builder,
  every \<open>Add\<close> answers true, the builder is fully defined, \<open>Matrix()\<close> is the matrix
  and \<open>Inverse()\<close> is its inverse. But \<open>Invert\<close> on it finds the pivot of column 254
  in row 255, takes that index for its "no row found" marker 255, and returns the
  identity with success = false: a matrix that is not the inverse.
\<close>

theorem incremental_differs_from_Invert:
  "Invert swapped_identity = Inr (ident 256, False)
   \<and> (\<exists>im. feed (NewIncrementalMatrix 256) swapped_identity = Inr (im, replicate 256 True)
         \<and> FullyDefined im \<and> Matrix_of im = swapped_identity
         \<and> Inverse_of im = swapped_identity)
   \<and> swapped_identity \<noteq> ident 256"
  using Invert_swapped_identity swapped_identity_not_ident
    builder_matches_inverse [OF swapped_identity_inverse_pair]
  by (simp add: length_swapped_identity)

end
